theory Spec2Isabelle
  imports Complex_Main "HOL-Library.AList"
begin

section \<open>Python exceptions raised by the modelled code\<close>

datatype py_error =
    IndexError
  | KeyError
  | ValueError
  | TypeError
  | AssertionError
  | AttributeError

section \<open>Python numbers, lists and dictionaries\<close>

text \<open>A floating-point value is a real number or NaN (\<open>None\<close>).\<close>

type_synonym num = "real option"

text \<open>\<open>xs[i]\<close> for a list or tuple, with Python's negative indices.\<close>

definition py_index :: "'a list \<Rightarrow> int \<Rightarrow> py_error + 'a" where
  "py_index xs i =
     (if 0 \<le> i \<and> i < int (length xs) then Inr (xs ! nat i)
      else if i < 0 \<and> - int (length xs) \<le> i then Inr (xs ! nat (int (length xs) + i))
      else Inl IndexError)"


text \<open>
  A \<open>dict\<close> keeps its keys in insertion order. It is modelled as an association list
  with distinct keys: storing under a key that is present replaces the value in place,
  storing under a new key appends (\<^const>\<open>AList.update\<close>). A dictionary built from a
  sequence of pairs (a comprehension, or repeated \<open>update\<close>) stores them one by one.
\<close>

type_synonym ('k, 'v) dict = "('k \<times> 'v) list"

definition dict_store :: "('k, 'v) dict \<Rightarrow> ('k \<times> 'v) list \<Rightarrow> ('k, 'v) dict" where
  "dict_store d kvs = fold (\<lambda>(k, v) acc. AList.update k v acc) kvs d"

definition dict_of :: "('k \<times> 'v) list \<Rightarrow> ('k, 'v) dict" where
  "dict_of kvs = dict_store [] kvs"

section \<open>\<open>flatten_parameter_dict\<close> (pymob/simulation.py)\<close>

text \<open>
  A parameter value is a scalar or a vector (an iterable) of scalars.
\<close>

datatype pvalue = Scalar num | Vector "num list"

fun is_iterable :: "pvalue \<Rightarrow> bool" where
  "is_iterable (Scalar v) = False"
| "is_iterable (Vector vs) = True"

subsection \<open>Strings: \<open>str(i)\<close>, \<open>int(s)\<close> and \<open>s.split(sep)\<close>\<close>

definition digit_char :: "nat \<Rightarrow> char" where
  "digit_char d = ''0123456789'' ! d"

definition digit_val :: "char \<Rightarrow> nat" where
  "digit_val c = length (takeWhile (\<lambda>d. d \<noteq> c) ''0123456789'')"

definition is_digit :: "char \<Rightarrow> bool" where
  "is_digit c \<longleftrightarrow> digit_val c < 10"

text \<open>The decimal numeral of a natural number, as an f-string prints an index.\<close>

fun str_nat :: "nat \<Rightarrow> string" where
  "str_nat n = (if n < 10 then [digit_char n] else str_nat (n div 10) @ [digit_char (n mod 10)])"

text \<open>
  \<open>int(s)\<close> for a string: surrounding white space is dropped, a sign may come first,
  and the rest must be decimal digits, where single underscores may stand between digits;
  anything else is a \<open>ValueError\<close>. (Digits outside ASCII are not modelled.)
\<close>

definition is_space :: "char \<Rightarrow> bool" where
  "is_space c \<longleftrightarrow> c \<in> set [CHR '' '', CHR 0x09, CHR 0x0A, CHR 0x0B, CHR 0x0C, CHR 0x0D]"

definition strip :: "string \<Rightarrow> string" where
  "strip s = rev (dropWhile is_space (rev (dropWhile is_space s)))"

fun digits_us :: "bool \<Rightarrow> string \<Rightarrow> bool" where
  "digits_us after_digit [] = after_digit"
| "digits_us after_digit (c # cs) =
     (if is_digit c then digits_us True cs
      else if c = CHR ''_'' \<and> after_digit then digits_us False cs
      else False)"

definition digits_value :: "string \<Rightarrow> nat" where
  "digits_value ds = fold (\<lambda>c acc. acc * 10 + digit_val c) ds 0"

definition py_int :: "string \<Rightarrow> py_error + int" where
  "py_int s =
     (let t = strip s;
          negative = (t \<noteq> [] \<and> hd t = CHR ''-'');
          body = (if t \<noteq> [] \<and> (hd t = CHR ''-'' \<or> hd t = CHR ''+'') then tl t else t)
      in if digits_us False body
         then Inr ((if negative then - 1 else 1) * int (digits_value (filter is_digit body)))
         else Inl ValueError)"

text \<open>
  \<open>s.split(sep)\<close> for a non-empty separator: the pieces between the occurrences of the
  separator, found from the left without overlap. \<open>piece\<close> holds the characters of the
  current piece in reverse.
\<close>

function split_from :: "string \<Rightarrow> string \<Rightarrow> string \<Rightarrow> string list" where
  "split_from sep piece s =
     (if s = [] then [rev piece]
      else if sep \<noteq> [] \<and> take (length sep) s = sep
        then rev piece # split_from sep [] (drop (length sep) s)
        else split_from sep (hd s # piece) (tl s))"
  by pat_completeness auto
termination
  by (relation "measure (\<lambda>(sep, piece, s). length s)") auto

definition py_split :: "string \<Rightarrow> string \<Rightarrow> string list" where
  "py_split s sep = split_from sep [] s"

subsection \<open>Flattening\<close>

text \<open>The flat name \<open>f"{par}___{i}"\<close> of the entry \<open>i\<close> of the vector \<open>par\<close>.\<close>

definition flat_key :: "string \<Rightarrow> nat \<Rightarrow> string" where
  "flat_key par i = par @ ''___'' @ str_nat i"

text \<open>\<open>np.full_like(value, fill_value=np.nan)\<close>: an array of the length of \<open>value\<close>, all NaN.\<close>

definition full_like_nan :: "num list \<Rightarrow> num list" where
  "full_like_nan vs = replicate (length vs) None"

text \<open>
  One round of the loop over \<open>parameters.items()\<close>, on the pair of \<open>flat_params\<close> and
  \<open>empty_map\<close>.
\<close>

definition flatten_item ::
  "string list \<Rightarrow> string \<times> pvalue \<Rightarrow> (string, num) dict \<times> (string, pvalue) dict
     \<Rightarrow> (string, num) dict \<times> (string, pvalue) dict" where
  "flatten_item exclude_params item state =
     (case item of (par, v) \<Rightarrow> case state of (flat_params, empty_map) \<Rightarrow>
        if par \<in> set exclude_params then (flat_params, empty_map)
        else
          (case v of
             Vector vs \<Rightarrow>
               (dict_store flat_params
                  (map (\<lambda>(i, subvalue). (flat_key par i, subvalue)) (enumerate 0 vs)),
                AList.update par (Vector (full_like_nan vs)) empty_map)
           | Scalar x \<Rightarrow>
               (AList.update par x flat_params,
                if par \<in> fst ` set empty_map then empty_map
                else AList.update par (Scalar None) empty_map)))"

text \<open>
  \<open>flatten_parameter_dict\<close> returns the flat parameters and the closure
  \<open>reverse_mapper\<close>. The closure holds \<open>empty_map\<close>; the model returns \<open>empty_map\<close> and
  \<open>reverse_mapper\<close> takes it as an argument and returns it as the call leaves it.
\<close>

definition flatten_parameter_dict ::
  "(string, pvalue) dict \<Rightarrow> string list \<Rightarrow> (string, num) dict \<times> (string, pvalue) dict" where
  "flatten_parameter_dict model_parameter_dict exclude_params =
     fold (flatten_item exclude_params) model_parameter_dict ([], [])"

subsection \<open>The inverse\<close>

text \<open>\<open>a[i] = v\<close> on an array: negative indices count from the end.\<close>

definition array_setitem :: "num list \<Rightarrow> int \<Rightarrow> num \<Rightarrow> py_error + num list" where
  "array_setitem a i v =
     (if 0 \<le> i \<and> i < int (length a) then Inr (a[nat i := v])
      else if i < 0 \<and> - int (length a) \<le> i then Inr (a[nat (int (length a) + i) := v])
      else Inl IndexError)"

text \<open>
  \<open>param_dict = empty_map.copy()\<close> is a shallow copy: the arrays of \<open>param_dict\<close> are the
  arrays of \<open>empty_map\<close>. An array enters \<open>param_dict\<close> only through this copy, so the
  array under a name in \<open>param_dict\<close> is always the one under that name in \<open>empty_map\<close>,
  and an assignment to one of its entries shows in both. An assignment to the name itself
  changes \<open>param_dict\<close> alone. One round of the loop over \<open>parameters.items()\<close> gives
  the new \<open>param_dict\<close>, or the error raised, and the new \<open>empty_map\<close>. In
  \<open>param_dict[par][int(par_index)] = value\<close> the lookup of \<open>par\<close> comes first, then
  \<open>int\<close>, then the assignment; a float has no item assignment (\<open>TypeError\<close>).
\<close>

definition reverse_item ::
  "string \<times> num \<Rightarrow> (string, pvalue) dict \<Rightarrow> (string, pvalue) dict
     \<Rightarrow> (py_error + (string, pvalue) dict) \<times> (string, pvalue) dict" where
  "reverse_item item param_dict empty_map =
     (case item of (subpar, v) \<Rightarrow>
        (let subpar_list = py_split subpar ''___'' in
         if length subpar_list > 1 then
           (case subpar_list of
              [par, par_index] \<Rightarrow>
                (case map_of param_dict par of
                   None \<Rightarrow> (Inl KeyError, empty_map)
                 | Some target \<Rightarrow>
                     (case py_int par_index of
                        Inl e \<Rightarrow> (Inl e, empty_map)
                      | Inr i \<Rightarrow>
                          (case target of
                             Scalar x \<Rightarrow> (Inl TypeError, empty_map)
                           | Vector a \<Rightarrow>
                               (case array_setitem a i v of
                                  Inl e \<Rightarrow> (Inl e, empty_map)
                                | Inr a' \<Rightarrow>
                                    (Inr (AList.update par (Vector a') param_dict),
                                     AList.update par (Vector a') empty_map)))))
            | _ \<Rightarrow> (Inl ValueError, empty_map))
         else if length subpar_list = 1 then
           (Inr (AList.update (hd subpar_list) (Scalar v) param_dict), empty_map)
         else (Inr param_dict, empty_map)))"

fun reverse_loop ::
  "(string \<times> num) list \<Rightarrow> (string, pvalue) dict \<Rightarrow> (string, pvalue) dict
     \<Rightarrow> (py_error + (string, pvalue) dict) \<times> (string, pvalue) dict" where
  "reverse_loop [] param_dict empty_map = (Inr param_dict, empty_map)"
| "reverse_loop (item # rest) param_dict empty_map =
     (case reverse_item item param_dict empty_map of
        (Inl e, empty_map') \<Rightarrow> (Inl e, empty_map')
      | (Inr param_dict', empty_map') \<Rightarrow> reverse_loop rest param_dict' empty_map')"

definition reverse_mapper ::
  "(string, pvalue) dict \<Rightarrow> (string, num) dict
     \<Rightarrow> (py_error + (string, pvalue) dict) \<times> (string, pvalue) dict" where
  "reverse_mapper empty_map parameters = reverse_loop parameters empty_map empty_map"

declare str_nat.simps [simp del]
declare split_from.simps [simp del]

subsection \<open>Well-formed names and the state of \<open>empty_map\<close>\<close>

text \<open>
  A name is plain when it does not contain the separator: splitting it gives the name
  alone. The name of a vector must also not end in an underscore, for otherwise the
  separator of its flat names is found one character early. A parameter mapping is
  well named when its scalars have plain names and its vectors have vector names.
\<close>

definition plain_name :: "string \<Rightarrow> bool" where
  "plain_name par \<longleftrightarrow> py_split par ''___'' = [par]"

definition vector_name :: "string \<Rightarrow> bool" where
  "vector_name par \<longleftrightarrow> plain_name par \<and> (par = [] \<or> last par \<noteq> CHR ''_'')"

fun well_named :: "string \<times> pvalue \<Rightarrow> bool" where
  "well_named (par, Scalar x) = plain_name par"
| "well_named (par, Vector vs) = vector_name par"

text \<open>The flat entries and the flat names of one parameter, and of a mapping.\<close>

fun flat_items :: "string \<times> pvalue \<Rightarrow> (string \<times> num) list" where
  "flat_items (par, Scalar x) = [(par, x)]"
| "flat_items (par, Vector vs) = map (\<lambda>(i, subvalue). (flat_key par i, subvalue)) (enumerate 0 vs)"

fun flat_names_of :: "string \<times> pvalue \<Rightarrow> string list" where
  "flat_names_of (par, Scalar x) = [par]"
| "flat_names_of (par, Vector vs) = map (flat_key par) [0 ..< length vs]"

definition flat_names :: "(string, pvalue) dict \<Rightarrow> string list" where
  "flat_names d = concat (map flat_names_of d)"

text \<open>The NaN-filled placeholder of one parameter.\<close>

fun template_entry :: "string \<times> pvalue \<Rightarrow> string \<times> pvalue" where
  "template_entry (par, Scalar x) = (par, Scalar None)"
| "template_entry (par, Vector vs) = (par, Vector (full_like_nan vs))"

text \<open>
  The states \<open>empty_map\<close> can be in: the names and the vector lengths of the parameters,
  NaN for every scalar, and any content in the arrays (the calls of \<open>reverse_mapper\<close>
  write into them).
\<close>

fun entry_shape :: "string \<times> pvalue \<Rightarrow> string \<times> nat option" where
  "entry_shape (par, Scalar x) = (par, None)"
| "entry_shape (par, Vector vs) = (par, Some (length vs))"

fun nan_scalar :: "pvalue \<Rightarrow> pvalue" where
  "nan_scalar (Scalar x) = Scalar None"
| "nan_scalar (Vector a) = Vector a"

definition nan_scalars :: "(string, pvalue) dict \<Rightarrow> (string, pvalue) dict" where
  "nan_scalars d = map (\<lambda>(par, t). (par, nan_scalar t)) d"

definition empty_map_state :: "(string, pvalue) dict \<Rightarrow> (string, pvalue) dict \<Rightarrow> bool" where
  "empty_map_state params em \<longleftrightarrow>
     map entry_shape em = map entry_shape params \<and> nan_scalars em = em"

text \<open>
  What a call of \<open>reverse_mapper\<close> on the flat mapping \<open>part\<close> makes of an entry: a
  flat entry that is present gives the value, one that is absent leaves what was there.
\<close>

fun rebuilt_value :: "(string, num) dict \<Rightarrow> string \<Rightarrow> pvalue \<Rightarrow> pvalue" where
  "rebuilt_value part par (Scalar x) = Scalar (case map_of part par of Some v \<Rightarrow> v | None \<Rightarrow> x)"
| "rebuilt_value part par (Vector ws) =
     Vector (map (\<lambda>i. case map_of part (flat_key par i) of Some v \<Rightarrow> v | None \<Rightarrow> ws ! i)
                 [0 ..< length ws])"

definition rebuilt :: "(string, num) dict \<Rightarrow> (string, pvalue) dict \<Rightarrow> (string, pvalue) dict" where
  "rebuilt part d = map (\<lambda>(par, t). (par, rebuilt_value part par t)) d"

text \<open>Replacing the value under a name that is present.\<close>

definition set_entry :: "string \<Rightarrow> pvalue \<Rightarrow> (string, pvalue) dict \<Rightarrow> (string, pvalue) dict" where
  "set_entry p t d = map (\<lambda>(q, u). (q, if q = p then t else u)) d"

section \<open>\<open>SimulationBase.parameterize\<close> and \<open>dispatch\<close> (pymob/simulation.py)\<close>

text \<open>
  A parameter object (\<open>toopy.param.Param\<close>) has a name and a value. The argument
  \<open>theta\<close> of \<open>dispatch\<close> is handed to \<open>parameterize\<close> as \<open>free_parameters\<close>: the
  signature asks for a list of parameter objects, the callers in the module pass the
  dictionary \<open>model_parameter_dict\<close>. Iterating a dictionary yields its keys, and a string
  has no attribute \<open>name\<close>.
\<close>

record 'v Param =
  param_name :: string
  param_value :: 'v

datatype 'v theta = Params "'v Param list" | Mapping "(string, 'v) dict"

text \<open>The pairs of the comprehension \<open>{p.name: p.value for p in free_parameters}\<close>.\<close>

fun theta_items :: "'v theta \<Rightarrow> py_error + (string \<times> 'v) list" where
  "theta_items (Params ps) = Inr (map (\<lambda>p. (param_name p, param_value p)) ps)"
| "theta_items (Mapping d) = (if d = [] then Inr [] else Inl AttributeError)"

text \<open>
  \<open>model_parameters\<close> is a dictionary read at the keys \<open>parameters\<close> and \<open>y0\<close>; a missing
  key is a \<open>KeyError\<close>. The returned dictionary has these two keys. \<open>parameters.update\<close>
  changes the dictionary stored under \<open>parameters\<close> in place, so the returned value is also
  the content of \<open>model_parameters\<close> after the call.
\<close>

record ('v, 'y) model_parameters =
  mp_parameters :: "(string, 'v) dict option"
  mp_y0 :: "'y option"

definition parameterize ::
  "'v theta \<Rightarrow> ('v, 'y) model_parameters \<Rightarrow> py_error + ('v, 'y) model_parameters" where
  "parameterize free_parameters model_parameters =
     (case mp_parameters model_parameters of None \<Rightarrow> Inl KeyError | Some parameters \<Rightarrow>
      case mp_y0 model_parameters of None \<Rightarrow> Inl KeyError | Some y0 \<Rightarrow>
      case theta_items free_parameters of Inl e \<Rightarrow> Inl e | Inr kvs \<Rightarrow>
        Inr \<lparr>mp_parameters = Some (dict_store parameters (dict_of kvs)), mp_y0 = Some y0\<rparr>)"

text \<open>
  The simulation, as far as \<open>dispatch\<close> reads it: the declared free parameters and the
  model parameters bound to \<open>parameterize\<close> in \<open>setup\<close>. The rest of \<open>dispatch\<close> looks up
  the solver, the model and the post-processing function and constructs the
  \<open>Evaluator\<close> (pymob/sim/evaluator.py) from them and the merged parameters; that part is
  the argument \<open>Evaluator\<close>.
\<close>

record ('v, 'y) simulation =
  free_model_parameters :: "'v Param list"
  model_parameters :: "('v, 'y) model_parameters"

definition dispatch ::
  "(('v, 'y) model_parameters \<Rightarrow> py_error + 'e) \<Rightarrow> ('v, 'y) simulation \<Rightarrow> 'v theta \<Rightarrow> py_error + 'e" where
  "dispatch Evaluator self theta =
     (case parameterize theta (model_parameters self) of
        Inl e \<Rightarrow> Inl e
      | Inr model_parameters' \<Rightarrow> Evaluator model_parameters')"

text \<open>
  A simulation with the declared free parameters \<open>alpha\<close> and \<open>beta\<close> of the test case
  study, and no initial values.
\<close>

definition example_simulation :: "(real, (string, real) dict) simulation" where
  "example_simulation =
     \<lparr>free_model_parameters =
        [\<lparr>param_name = ''alpha'', param_value = 5\<rparr>, \<lparr>param_name = ''beta'', param_value = 1 / 50\<rparr>],
      model_parameters =
        \<lparr>mp_parameters = Some [(''alpha'', 5), (''beta'', 1 / 50)], mp_y0 = Some []\<rparr>\<rparr>"

section \<open>The data scaler (\<open>create_data_scaler\<close>, \<open>scale_\<close> in pymob/simulation.py)\<close>

text \<open>
  The arrays of the scaler hold 64-bit floating-point numbers. An entry is NaN, written
  \<open>None\<close>, or a number of a type \<open>'f\<close> of which only the order is used (the two zeros of
  the format are one number). The arithmetic of the format is a parameter of the model:
  the record \<open>float_ops\<close> holds the rounded addition, subtraction, multiplication and
  division, the numbers zero and one, ten times the machine epsilon (\<open>10 * 2 ^ -52\<close> for
  64 bits) and the test for an infinity. Nothing is assumed of these operations, so what
  is proved of the scaler for every such record holds for the arithmetic of the machine.

  A two-dimensional array is the list of its rows, one row per stacked sample and one
  column per data variable, in the order of \<open>config.simulation.data_variables\<close>: this is
  what \<open>dataset_to_2Darray\<close> hands to the scaler, and \<open>array2D_to_dataset\<close> only puts the
  labels back.
\<close>

record 'f float_ops =
  fl_add :: "'f option \<Rightarrow> 'f option \<Rightarrow> 'f option"
  fl_sub :: "'f option \<Rightarrow> 'f option \<Rightarrow> 'f option"
  fl_mul :: "'f option \<Rightarrow> 'f option \<Rightarrow> 'f option"
  fl_div :: "'f option \<Rightarrow> 'f option \<Rightarrow> 'f option"
  fl_zero :: 'f
  fl_one :: 'f
  fl_ten_eps :: 'f
  fl_isinf :: "'f \<Rightarrow> bool"

text \<open>\<open>numpy.nanmin\<close> and \<open>numpy.nanmax\<close> of a column: NaN entries are skipped.\<close>

definition nanmin :: "('f :: linorder) option list \<Rightarrow> 'f option" where
  "nanmin col = (case List.map_filter id col of [] \<Rightarrow> None | v # vs \<Rightarrow> Some (fold min vs v))"

definition nanmax :: "('f :: linorder) option list \<Rightarrow> 'f option" where
  "nanmax col = (case List.map_filter id col of [] \<Rightarrow> None | v # vs \<Rightarrow> Some (fold max vs v))"

text \<open>
  scikit-learn's \<open>MinMaxScaler\<close> with its default feature range \<open>(0, 1)\<close>. \<open>fit\<close> and
  \<open>transform\<close> first validate the array: an array without rows or without columns is a
  \<open>ValueError\<close>, and so is an infinite entry, while NaN is allowed. Per column,
  \<open>data_min_\<close> and \<open>data_max_\<close> are the smallest and the largest number seen,
  \<open>data_range_\<close> is their difference, \<open>scale_\<close> is \<open>1 / data_range_\<close> with every range
  below ten times the machine epsilon replaced by one (a NaN range compares false and
  stays), \<open>min_\<close> is \<open>0 - data_min_ * scale_\<close>, and \<open>transform\<close> computes
  \<open>X * scale_ + min_\<close>. The fields carry the prefix \<open>sk\<close> in place of the trailing
  underscore. Rows of different widths do not exist in an array; the list of rows
  answers them with the \<open>ValueError\<close> of a wrong number of features.
\<close>

record 'f MinMaxScaler =
  sk_data_min :: "'f option list"
  sk_data_max :: "'f option list"
  sk_data_range :: "'f option list"
  sk_scale :: "'f option list"
  sk_min :: "'f option list"

definition assert_all_finite :: "'f float_ops \<Rightarrow> 'f option list list \<Rightarrow> bool" where
  "assert_all_finite ops X \<longleftrightarrow>
     (\<forall>row \<in> set X. \<forall>v \<in> set row. case v of None \<Rightarrow> True | Some u \<Rightarrow> \<not> fl_isinf ops u)"

definition handle_zeros_in_scale :: "('f :: linorder) float_ops \<Rightarrow> 'f option \<Rightarrow> 'f option" where
  "handle_zeros_in_scale ops r =
     (case r of
        None \<Rightarrow> None
      | Some v \<Rightarrow> if v < fl_ten_eps ops then Some (fl_one ops) else Some v)"

definition columns :: "'f option list list \<Rightarrow> nat \<Rightarrow> 'f option list list" where
  "columns X n = map (\<lambda>j. map (\<lambda>row. row ! j) X) [0..<n]"

definition MinMaxScaler_fit ::
  "('f :: linorder) float_ops \<Rightarrow> 'f option list list \<Rightarrow> py_error + 'f MinMaxScaler" where
  "MinMaxScaler_fit ops X =
     (case X of
        [] \<Rightarrow> Inl ValueError
      | row # _ \<Rightarrow>
          (let n = length row in
           if n = 0 \<or> (\<exists>r \<in> set X. length r \<noteq> n) \<or> \<not> assert_all_finite ops X
           then Inl ValueError
           else
             (let dmin = map nanmin (columns X n);
                  dmax = map nanmax (columns X n);
                  drange = map (\<lambda>(hi, lo). fl_sub ops hi lo) (zip dmax dmin);
                  scale = map (\<lambda>r. fl_div ops (Some (fl_one ops)) (handle_zeros_in_scale ops r))
                            drange;
                  mn = map (\<lambda>(lo, s). fl_sub ops (Some (fl_zero ops)) (fl_mul ops lo s))
                         (zip dmin scale)
              in Inr \<lparr>sk_data_min = dmin, sk_data_max = dmax, sk_data_range = drange,
                      sk_scale = scale, sk_min = mn\<rparr>)))"

definition transform_row :: "'f float_ops \<Rightarrow> 'f MinMaxScaler \<Rightarrow> 'f option list \<Rightarrow> 'f option list" where
  "transform_row ops sc row =
     map (\<lambda>(v, s, m). fl_add ops (fl_mul ops v s) m) (zip row (zip (sk_scale sc) (sk_min sc)))"

definition MinMaxScaler_transform ::
  "'f float_ops \<Rightarrow> 'f MinMaxScaler \<Rightarrow> 'f option list list \<Rightarrow> py_error + 'f option list list" where
  "MinMaxScaler_transform ops sc X =
     (if X = [] \<or> (\<exists>r \<in> set X. length r \<noteq> length (sk_scale sc)) \<or> \<not> assert_all_finite ops X
      then Inl ValueError
      else Inr (map (transform_row ops sc) X))"

text \<open>\<open>scale_\<close> transforms the two-dimensional array of a dataset with the fitted scaler.\<close>

definition sim_scale ::
  "'f float_ops \<Rightarrow> 'f MinMaxScaler \<Rightarrow> 'f option list list \<Rightarrow> py_error + 'f option list list" where
  "sim_scale ops scaler data_2D_array = MinMaxScaler_transform ops scaler data_2D_array"

text \<open>
  \<open>create_data_scaler\<close>: the declared lower and upper bounds of the data variables are
  stacked on top of the observations (\<open>np.row_stack\<close>, a \<open>ValueError\<close> when the widths
  differ) and the scaler is fitted on the stack. The method then stores the scaler,
  prints its \<open>data_min_\<close> and \<open>data_max_\<close> per data variable, scales the observations
  with \<open>scale_\<close> and stores them as \<open>observations_scaled\<close>. The result is the pair of the
  two stored attributes; an exception of any step is the result in their place.
\<close>

definition row_stack ::
  "'f option list \<Rightarrow> 'f option list \<Rightarrow> 'f option list list \<Rightarrow> py_error + 'f option list list" where
  "row_stack lower_bounds upper_bounds obs_2D_array =
     (if length upper_bounds \<noteq> length lower_bounds \<or>
         (\<exists>r \<in> set obs_2D_array. length r \<noteq> length lower_bounds)
      then Inl ValueError
      else Inr (lower_bounds # upper_bounds # obs_2D_array))"

definition create_data_scaler ::
  "('f :: linorder) float_ops \<Rightarrow> 'f option list \<Rightarrow> 'f option list \<Rightarrow> 'f option list list \<Rightarrow>
     py_error + ('f MinMaxScaler \<times> 'f option list list)" where
  "create_data_scaler ops data_variables_min data_variables_max obs_2D_array =
     (case row_stack data_variables_min data_variables_max obs_2D_array of
        Inl e \<Rightarrow> Inl e
      | Inr stacked_array \<Rightarrow>
          (case MinMaxScaler_fit ops stacked_array of
             Inl e \<Rightarrow> Inl e
           | Inr scaler \<Rightarrow>
               (case sim_scale ops scaler obs_2D_array of
                  Inl e \<Rightarrow> Inl e
                | Inr scaled_obs \<Rightarrow> Inr (scaler, scaled_obs))))"

text \<open>
  The arithmetic of the reals, with NaN handed through. The reals have no infinity, and
  a division by zero, which has no real value, is given as NaN; the scaler never divides
  by zero. Where the operands and the exact result of an operation are numbers of the
  64-bit format, the operation of the format returns this exact result: the examples
  below use zero and powers of two only, so that every step is of this kind.
\<close>

definition exact_op :: "(real \<Rightarrow> real \<Rightarrow> real) \<Rightarrow> real option \<Rightarrow> real option \<Rightarrow> real option" where
  "exact_op f a b =
     (case a of None \<Rightarrow> None | Some u \<Rightarrow> (case b of None \<Rightarrow> None | Some v \<Rightarrow> Some (f u v)))"

definition exact_div :: "real option \<Rightarrow> real option \<Rightarrow> real option" where
  "exact_div a b =
     (case a of None \<Rightarrow> None | Some u \<Rightarrow>
        (case b of None \<Rightarrow> None | Some v \<Rightarrow> if v = 0 then None else Some (u / v)))"

definition exact_ops :: "real float_ops" where
  "exact_ops =
     \<lparr>fl_add = exact_op (+), fl_sub = exact_op (-), fl_mul = exact_op (*), fl_div = exact_div,
      fl_zero = 0, fl_one = 1, fl_ten_eps = 10 / 2 ^ 52, fl_isinf = (\<lambda>u. False)\<rparr>"

section \<open>\<open>SimulationBase.create_coordinates\<close> (pymob/simulation.py)\<close>

text \<open>
  The argument is a list or tuple of coordinate arrays, or any other object (a single
  array), which the method wraps into a one-element tuple. \<open>dimensions\<close> is
  \<open>self.config.simulation.dimensions\<close>. The \<open>assert\<close> raises \<open>AssertionError\<close>.
\<close>

datatype 'c coordinate_data = Seq "'c list" | Single 'c

definition create_coordinates ::
  "string list \<Rightarrow> 'c coordinate_data \<Rightarrow> py_error + (string, 'c) dict" where
  "create_coordinates dimensions coordinate_data =
     (let coordinate_data' = (case coordinate_data of Seq xs \<Rightarrow> xs | Single x \<Rightarrow> [x])
      in if length dimensions \<noteq> length coordinate_data' then Inl AssertionError
         else Inr (dict_of (zip dimensions coordinate_data')))"

section \<open>\<open>SimulationBase.create_dataset_from_numpy\<close> (pymob/simulation.py)\<close>

text \<open>
  A numpy array is its shape and its elements in row-major order. The elements of an
  array of shape \<open>(d\<^sub>0, \<dots>, d\<^sub>k, n)\<close> with the last index \<open>j\<close> fixed are the elements at
  the positions \<open>m * n + j\<close>.
\<close>

record 'a ndarray =
  nd_shape :: "nat list"
  nd_data :: "'a list"

definition wf_ndarray :: "'a ndarray \<Rightarrow> bool" where
  "wf_ndarray Y \<longleftrightarrow> length (nd_data Y) = prod_list (nd_shape Y)"

text \<open>
  \<open>Y.transpose((n_dims - 1, *range(n_dims - 1)))\<close> moves the last axis to the front;
  iterating the result yields, for each index \<open>j\<close> of that axis, the array of the
  remaining axes.
\<close>

definition variable_slice :: "'a ndarray \<Rightarrow> nat \<Rightarrow> 'a ndarray" where
  "variable_slice Y j =
     \<lparr>nd_shape = butlast (nd_shape Y),
      nd_data = map (\<lambda>m. nd_data Y ! (m * last (nd_shape Y) + j))
                    [0 ..< prod_list (butlast (nd_shape Y))]\<rparr>"

definition Y_transposed :: "'a ndarray \<Rightarrow> 'a ndarray list" where
  "Y_transposed Y = map (variable_slice Y) [0 ..< last (nd_shape Y)]"

text \<open>
  The loop over \<open>zip(Y_transposed, Y_names)\<close>. \<open>xr.DataArray\<close> and \<open>xr.merge\<close> belong to
  xarray and are arguments of the model: \<open>DataArray y coordinates name\<close> is the labelled
  array or the error the constructor raises.
\<close>

fun data_arrays ::
  "('a ndarray \<Rightarrow> 'c \<Rightarrow> string \<Rightarrow> py_error + 'da) \<Rightarrow> 'c \<Rightarrow> ('a ndarray \<times> string) list
     \<Rightarrow> py_error + 'da list" where
  "data_arrays DataArray coordinates [] = Inr []"
| "data_arrays DataArray coordinates ((y, y_name) # rest) =
     (case DataArray y coordinates y_name of
        Inl e \<Rightarrow> Inl e
      | Inr da \<Rightarrow>
          (case data_arrays DataArray coordinates rest of
             Inl e \<Rightarrow> Inl e
           | Inr das \<Rightarrow> Inr (da # das)))"

definition create_dataset_from_numpy ::
  "('a ndarray \<Rightarrow> 'c \<Rightarrow> string \<Rightarrow> py_error + 'da) \<Rightarrow> ('da list \<Rightarrow> py_error + 'ds) \<Rightarrow>
     'a ndarray \<Rightarrow> string list \<Rightarrow> 'c \<Rightarrow> py_error + 'ds" where
  "create_dataset_from_numpy DataArray merge Y Y_names coordinates =
     (case py_index (nd_shape Y) (- 1) of
        Inl e \<Rightarrow> Inl e
      | Inr n_vars \<Rightarrow>
          if n_vars \<noteq> length Y_names then Inl AssertionError
          else
            (case data_arrays DataArray coordinates (zip (Y_transposed Y) Y_names) of
               Inl e \<Rightarrow> Inl e
             | Inr das \<Rightarrow> merge das))"

text \<open>
  xarray, as far as the examples below need it. \<open>DataArray(y, coords=coordinates, name=name)\<close>
  with a dictionary of one-dimensional coordinates takes the dimension names from the
  keys and raises \<open>ValueError\<close> unless there is one coordinate per axis of \<open>y\<close>, each as
  long as its axis. \<open>merge\<close> collects the arrays as the variables of a dataset; arrays of
  one name must agree, otherwise it raises \<open>MergeError\<close>, a \<open>ValueError\<close>.
\<close>

record ('a, 'l) labelled_array =
  da_name :: string
  da_coords :: "(string, 'l list) dict"
  da_values :: "'a ndarray"

definition xr_DataArray ::
  "'a ndarray \<Rightarrow> (string, 'l list) dict \<Rightarrow> string \<Rightarrow> py_error + ('a, 'l) labelled_array" where
  "xr_DataArray y coordinates y_name =
     (if map (\<lambda>(dim, labels). length labels) coordinates = nd_shape y
      then Inr \<lparr>da_name = y_name, da_coords = coordinates, da_values = y\<rparr>
      else Inl ValueError)"

fun xr_merge_into ::
  "('a, 'l) labelled_array list \<Rightarrow> ('a, 'l) labelled_array list \<Rightarrow> py_error + ('a, 'l) labelled_array list" where
  "xr_merge_into ds [] = Inr ds"
| "xr_merge_into ds (da # das) =
     (case find (\<lambda>v. da_name v = da_name da) ds of
        None \<Rightarrow> xr_merge_into (ds @ [da]) das
      | Some v \<Rightarrow> if v = da then xr_merge_into ds das else Inl ValueError)"

definition xr_merge :: "('a, 'l) labelled_array list \<Rightarrow> py_error + ('a, 'l) labelled_array list" where
  "xr_merge das = xr_merge_into [] das"

text \<open>
  An output of two time points and three variables, with the values \<open>1, 2, 3\<close> at the
  first time point and \<open>4, 5, 6\<close> at the second.
\<close>

definition example_Y :: "real ndarray" where
  "example_Y = \<lparr>nd_shape = [2, 3], nd_data = [1, 2, 3, 4, 5, 6]\<rparr>"

section \<open>\<open>JaxSolver.odesolve\<close> (pymob/solvers/diffrax.py)\<close>

text \<open>
  The solver is a frozen dataclass. \<open>solver_x\<close> is \<open>self.x\<close> (the time coordinates of the output) and the
  time coordinate of the forcing, \<open>coordinates_input_vars["x_in"][x_dim]\<close>, are attributes
  of its base class. Times and tolerances are real numbers; the comparisons the method
  makes on them are exact.
\<close>

record JaxSolver =
  rtol :: real
  atol :: real
  pcoeff :: real
  icoeff :: real
  dcoeff :: real
  max_steps :: int
  throw_exception :: bool
  solver_x :: "real list"
  x_in_coordinates :: "real list"

text \<open>
  \<open>odesolve\<close> prepares the arguments of diffrax's \<open>PIDController\<close> and \<open>diffeqsolve\<close>
  and hands the integration to the library. The model stops at that call and returns its
  arguments; the interpolation of the forcing is kept as the pair of its \<open>ts\<close> and \<open>ys\<close>.
\<close>

record 'a diffeqsolve_call =
  arg_t0 :: real
  arg_t1 :: real
  arg_dt0 :: real
  arg_y0 :: "'a list"
  arg_interp :: "(real list \<times> real list) option"
  arg_args :: "'a list"
  arg_saveat_ts :: "real list"
  arg_rtol :: real
  arg_atol :: real
  arg_pcoeff :: real
  arg_icoeff :: real
  arg_dcoeff :: real
  arg_jump_ts :: "real list option"
  arg_max_steps :: int
  arg_throw :: bool

text \<open>
  \<open>a[mask]\<close> for a one-dimensional array and a boolean mask: the elements at the
  positions where the mask holds; a mask of another length is an \<open>IndexError\<close>.
\<close>

definition mask_select :: "'a list \<Rightarrow> bool list \<Rightarrow> py_error + 'a list" where
  "mask_select a msk =
     (if length msk \<noteq> length a then Inl IndexError
      else Inr (map fst (filter snd (zip a msk))))"

text \<open>
  The branch on \<open>len(x_in) > 0\<close>: the interpolation and the jump times. \<open>x_in\<close> is the
  tuple of the forcing's flattened arrays, \<open>x_in[0]\<close> its breakpoints and \<open>x_in[1]\<close> its
  values.
\<close>

definition odesolve_forcing ::
  "JaxSolver \<Rightarrow> real list list \<Rightarrow> py_error + ((real list \<times> real list) option \<times> real list option)" where
  "odesolve_forcing self x_in =
     (if length x_in > 0 then
        (case py_index x_in 0 of Inl e \<Rightarrow> Inl e | Inr ts \<Rightarrow>
         case py_index x_in 1 of Inl e \<Rightarrow> Inl e | Inr ys \<Rightarrow>
         case py_index (solver_x self) (- 1) of Inl e \<Rightarrow> Inl e | Inr x_last \<Rightarrow>
         case mask_select ts (map (\<lambda>c. c < x_last) (x_in_coordinates self)) of
           Inl e \<Rightarrow> Inl e
         | Inr jumps \<Rightarrow> Inr (Some (ts, ys), Some jumps))
      else Inr (None, None))"

definition odesolve :: "JaxSolver \<Rightarrow> 'a list \<Rightarrow> 'a list \<Rightarrow> real list list \<Rightarrow> py_error + 'a diffeqsolve_call" where
  "odesolve self y0 args x_in =
     (case odesolve_forcing self x_in of Inl e \<Rightarrow> Inl e | Inr (ip, jumps) \<Rightarrow>
      case py_index (solver_x self) 0 of Inl e \<Rightarrow> Inl e | Inr t_min \<Rightarrow>
      case py_index (solver_x self) (- 1) of Inl e \<Rightarrow> Inl e | Inr t_max \<Rightarrow>
        Inr \<lparr>arg_t0 = t_min, arg_t1 = t_max, arg_dt0 = 1 / 10, arg_y0 = y0, arg_interp = ip,
             arg_args = args, arg_saveat_ts = solver_x self,
             arg_rtol = rtol self, arg_atol = atol self, arg_pcoeff = pcoeff self,
             arg_icoeff = icoeff self, arg_dcoeff = dcoeff self,
             arg_jump_ts = jumps, arg_max_steps = max_steps self,
             arg_throw = throw_exception self\<rparr>)"

text \<open>
  The jump times as the specification words them: the forcing breakpoints within the
  solved time range, from the first to the last time coordinate.
\<close>

definition spec_jump_ts :: "real list \<Rightarrow> real list \<Rightarrow> real list" where
  "spec_jump_ts xs ts = filter (\<lambda>t. hd xs \<le> t \<and> t \<le> last xs) ts"

text \<open>The jump times handed to the step-size controller by a call of \<open>odesolve\<close>.\<close>

definition jumps_of :: "py_error + 'a diffeqsolve_call \<Rightarrow> py_error + real list option" where
  "jumps_of r = (case r of Inl e \<Rightarrow> Inl e | Inr c \<Rightarrow> Inr (arg_jump_ts c))"

text \<open>
  A solver with the dataclass's default settings, solving on the time coordinates
  \<open>0\<close> and \<open>10\<close> under a forcing with breakpoints at \<open>-5\<close>, \<open>5\<close> and \<open>10\<close>.
\<close>

definition example_solver :: JaxSolver where
  "example_solver =
     \<lparr>rtol = 1 / 10 ^ 6, atol = 1 / 10 ^ 7, pcoeff = 0, icoeff = 1, dcoeff = 0,
      max_steps = 100000, throw_exception = True, solver_x = [0, 10],
      x_in_coordinates = [- 5, 5, 10]\<rparr>"

section \<open>Seed pool of \<open>SimulationBase\<close> (pymob/simulation.py)\<close>

text \<open>
  The simulation keeps a list \<open>_random_integers\<close> of pre-drawn seeds, the size
  \<open>_seed_buffer_size\<close> of a full buffer and the generator \<open>RNG\<close>. The generator
  seeded from the configuration is a fixed stream of integers \<open>gen\<close>; its state is the
  number of integers drawn so far.
\<close>

record seed_pool =
  n_cores :: int
  seed_buffer_size :: int
  random_integers :: "int list"
  rng_drawn :: nat

text \<open>
  \<open>create_random_integers(n)\<close> is \<open>self.RNG.integers(low=0, high=int(1e18), size=n).tolist()\<close>:
  numpy refuses a negative size with a \<open>ValueError\<close>.
\<close>

definition create_random_integers ::
  "(nat \<Rightarrow> int) \<Rightarrow> seed_pool \<Rightarrow> int \<Rightarrow> py_error + (int list \<times> seed_pool)" where
  "create_random_integers gen s n =
     (if n < 0 then Inl ValueError
      else Inr (map gen [rng_drawn s ..< rng_drawn s + nat n],
                s\<lparr>rng_drawn := rng_drawn s + nat n\<rparr>))"

text \<open>The part of \<open>SimulationBase.__init__\<close> that seeds the pool.\<close>

definition init_seed_pool :: "(nat \<Rightarrow> int) \<Rightarrow> int \<Rightarrow> py_error + seed_pool" where
  "init_seed_pool gen cores =
     (let s = \<lparr>n_cores = cores, seed_buffer_size = cores * 2,
                random_integers = [], rng_drawn = 0\<rparr>
      in case create_random_integers gen s (seed_buffer_size s) of
           Inl e \<Rightarrow> Inl e
         | Inr (seeds, s') \<Rightarrow> Inr (s'\<lparr>random_integers := seeds\<rparr>))"

definition refill_consumed_seeds :: "(nat \<Rightarrow> int) \<Rightarrow> seed_pool \<Rightarrow> py_error + seed_pool" where
  "refill_consumed_seeds gen s =
     (let n_seeds_left = int (length (random_integers s))
      in if n_seeds_left = n_cores s then
           (let n_new_seeds = seed_buffer_size s - n_seeds_left
            in case create_random_integers gen s n_new_seeds of
                 Inl e \<Rightarrow> Inl e
               | Inr (new_seeds, s') \<Rightarrow>
                   Inr (s'\<lparr>random_integers := random_integers s' @ new_seeds\<rparr>))
         else Inr s)"

text \<open>\<open>list.pop(0)\<close> raises \<open>IndexError\<close> on an empty list.\<close>

definition draw_seed :: "(nat \<Rightarrow> int) \<Rightarrow> seed_pool \<Rightarrow> py_error + (int \<times> seed_pool)" where
  "draw_seed gen s =
     (case refill_consumed_seeds gen s of
        Inl e \<Rightarrow> Inl e
      | Inr s' \<Rightarrow>
          (case random_integers s' of
             [] \<Rightarrow> Inl IndexError
           | seed # rest \<Rightarrow> Inr (seed, s'\<lparr>random_integers := rest\<rparr>)))"

text \<open>Sequential use: \<open>k\<close> calls of \<open>draw_seed\<close>, one after the other.\<close>

fun draw_seeds :: "(nat \<Rightarrow> int) \<Rightarrow> nat \<Rightarrow> seed_pool \<Rightarrow> py_error + (int list \<times> seed_pool)" where
  "draw_seeds gen 0 s = Inr ([], s)"
| "draw_seeds gen (Suc k) s =
     (case draw_seed gen s of
        Inl e \<Rightarrow> Inl e
      | Inr (seed, s') \<Rightarrow>
          (case draw_seeds gen k s' of
             Inl e \<Rightarrow> Inl e
           | Inr (seeds, s'') \<Rightarrow> Inr (seed # seeds, s'')))"

text \<open>
  The pool under sequential use with \<open>n\<close> cores, after \<open>k\<close> draws: it holds the
  integers of the generator from the \<open>k\<close>-th up to the last one drawn from the generator.
\<close>

definition pool_inv :: "(nat \<Rightarrow> int) \<Rightarrow> int \<Rightarrow> nat \<Rightarrow> seed_pool \<Rightarrow> bool" where
  "pool_inv gen n k s \<longleftrightarrow> n_cores s = n \<and> seed_buffer_size s = n * 2 \<and>
     k \<le> rng_drawn s \<and> random_integers s = map gen [k ..< rng_drawn s] \<and>
     n \<le> int (rng_drawn s) - int k \<and> int (rng_drawn s) - int k \<le> n * 2"

section \<open>Facts about lists and dictionaries\<close>

lemma py_index_first: "xs \<noteq> [] \<Longrightarrow> py_index xs 0 = Inr (hd xs)"
  by (cases xs) (simp_all add: py_index_def)

lemma py_index_second: "py_index (a # b # xs) 1 = Inr b"
  by (simp add: py_index_def)

lemma py_index_last: "xs \<noteq> [] \<Longrightarrow> py_index xs (- 1) = Inr (last xs)"
proof -
  assume ne: "xs \<noteq> []"
  then have l: "1 \<le> length xs" by (cases xs) simp_all
  then have "nat (int (length xs) + - 1) = length xs - 1" by simp
  with ne l show ?thesis by (simp add: py_index_def last_conv_nth)
qed

lemma dict_store_Nil [simp]: "dict_store d [] = d"
  by (simp add: dict_store_def)

lemma dict_store_Cons [simp]: "dict_store d ((k, v) # kvs) = dict_store (AList.update k v d) kvs"
  by (simp add: dict_store_def)

lemma dict_store_append: "dict_store d (xs @ ys) = dict_store (dict_store d xs) ys"
  by (simp add: dict_store_def)

lemma dict_store_keys: "fst ` set (dict_store d kvs) = fst ` set d \<union> fst ` set kvs"
proof (induction kvs arbitrary: d)
  case Nil
  then show ?case by simp
next
  case (Cons p kvs)
  obtain k v where p: "p = (k, v)" by (cases p)
  show ?case unfolding p dict_store_Cons Cons.IH by (auto simp add: dom_update)
qed

lemma dict_store_distinct: "distinct (map fst d) \<Longrightarrow> distinct (map fst (dict_store d kvs))"
proof (induction kvs arbitrary: d)
  case Nil
  then show ?case by simp
next
  case (Cons p kvs)
  obtain k v where p: "p = (k, v)" by (cases p)
  show ?case unfolding p dict_store_Cons by (rule Cons.IH) (simp add: distinct_update Cons.prems)
qed

lemma dict_store_other:
  "k \<notin> fst ` set kvs \<Longrightarrow> map_of (dict_store d kvs) k = map_of d k"
proof (induction kvs arbitrary: d)
  case Nil
  then show ?case by simp
next
  case (Cons p kvs)
  obtain k' v where p: "p = (k', v)" by (cases p)
  from Cons.prems have "k \<noteq> k'" "k \<notin> fst ` set kvs" by (auto simp add: p)
  then show ?case unfolding p dict_store_Cons by (simp add: Cons.IH update_conv')
qed

lemma dict_store_last:
  assumes "length ks = length vs" "i < length ks" "ks ! i \<notin> set (drop (Suc i) ks)"
  shows "map_of (dict_store d (zip ks vs)) (ks ! i) = Some (vs ! i)"
  using assms
proof (induction ks vs arbitrary: d i rule: list_induct2)
  case Nil
  then show ?case by simp
next
  case (Cons k ks v vs)
  show ?case
  proof (cases i)
    case 0
    with Cons.prems have "k \<notin> fst ` set (zip ks vs)"
      by (auto dest: set_zip_leftD)
    then show ?thesis using 0 by (simp add: dict_store_other update_conv')
  next
    case (Suc j)
    with Cons.prems Cons.IH[of j] show ?thesis by simp
  qed
qed

lemma dict_store_fresh:
  assumes "distinct (map fst kvs)" "fst ` set d \<inter> fst ` set kvs = {}"
  shows "dict_store d kvs = d @ kvs"
  using assms
proof (induction kvs arbitrary: d)
  case Nil
  then show ?case by simp
next
  case (Cons p kvs)
  obtain k v where p: "p = (k, v)" by (cases p)
  from Cons.prems have k: "k \<notin> fst ` set d" by (auto simp add: p)
  have u: "AList.update k v d = d @ [(k, v)]"
    using k by (induction d) auto
  have "dict_store (d @ [(k, v)]) kvs = (d @ [(k, v)]) @ kvs"
    using Cons.prems by (intro Cons.IH) (auto simp add: p)
  then show ?case by (simp add: p u)
qed

lemma dict_of_distinct_keys: "distinct (map fst kvs) \<Longrightarrow> dict_of kvs = kvs"
  using dict_store_fresh[of kvs "[]"] by (simp add: dict_of_def)

lemma dict_store_map_of: "map_of (dict_store d kvs) = map_of d ++ map_of (rev kvs)"
proof (induction kvs arbitrary: d)
  case Nil
  then show ?case by simp
next
  case (Cons p kvs)
  obtain k v where p: "p = (k, v)" by (cases p)
  have "map_of (dict_store d (p # kvs)) = map_of (AList.update k v d) ++ map_of (rev kvs)"
    by (simp add: p Cons.IH)
  also have "\<dots> = (map_of d ++ [k \<mapsto> v]) ++ map_of (rev kvs)"
    by (simp add: update_conv')
  also have "\<dots> = map_of d ++ map_of (rev (p # kvs))"
    by (simp add: p)
  finally show ?case .
qed

lemma map_of_rev_distinct:
  assumes "distinct (map fst d)"
  shows "map_of (rev d) = map_of d"
proof -
  have "distinct (map fst (rev d))"
    using assms by (simp flip: rev_map)
  then show ?thesis
    using assms by (simp add: map_of_inject_set)
qed

lemma dict_of_map_of: "map_of (dict_of kvs) = map_of (rev kvs)"
  by (simp add: dict_of_def dict_store_map_of)

lemma dict_of_distinct: "distinct (map fst (dict_of kvs))"
  by (simp add: dict_of_def dict_store_distinct)

lemma dict_of_keys: "fst ` set (dict_of kvs) = fst ` set kvs"
  by (simp add: dict_of_def dict_store_keys)

section \<open>Flattening parameters and back\<close>

subsection \<open>Decimal numerals\<close>

lemma digit_table:
  "\<forall>d \<in> set [0..<10]. digit_val (digit_char d) = d \<and> digit_char d \<noteq> CHR ''_'' \<and>
     digit_char d \<noteq> CHR ''-'' \<and> digit_char d \<noteq> CHR ''+'' \<and> \<not> is_space (digit_char d)"
  by (simp add: upt_rec digit_val_def digit_char_def is_space_def)

lemma digit_val_digit_char: "d < 10 \<Longrightarrow> digit_val (digit_char d) = d"
  using digit_table by simp

lemma is_digit_digit_char: "d < 10 \<Longrightarrow> is_digit (digit_char d)"
  by (simp add: is_digit_def digit_val_digit_char)

lemma digit_char_plain:
  "d < 10 \<Longrightarrow> digit_char d \<noteq> CHR ''_'' \<and> digit_char d \<noteq> CHR ''-'' \<and>
     digit_char d \<noteq> CHR ''+'' \<and> \<not> is_space (digit_char d)"
  using digit_table by simp

lemma str_nat_digits: "c \<in> set (str_nat n) \<Longrightarrow> \<exists>d < 10. c = digit_char d"
proof (induction n rule: str_nat.induct)
  case (1 n)
  show ?case
  proof (cases "n < 10")
    case True
    with "1.prems" have "c = digit_char n" by (simp add: str_nat.simps[of n])
    with True show ?thesis by blast
  next
    case False
    with "1.prems" have "c \<in> set (str_nat (n div 10)) \<or> c = digit_char (n mod 10)"
      by (auto simp add: str_nat.simps[of n])
    then show ?thesis
    proof
      assume "c \<in> set (str_nat (n div 10))"
      with False "1.IH" show ?thesis by blast
    next
      assume c: "c = digit_char (n mod 10)"
      have "n mod 10 < 10" by simp
      with c show ?thesis by blast
    qed
  qed
qed

lemma str_nat_not_Nil: "str_nat n \<noteq> []"
  by (subst str_nat.simps) simp

lemma digits_value_snoc: "digits_value (ds @ [c]) = digits_value ds * 10 + digit_val c"
  by (simp add: digits_value_def)

lemma digits_value_str_nat: "digits_value (str_nat n) = n"
proof (induction n rule: str_nat.induct)
  case (1 n)
  show ?case
  proof (cases "n < 10")
    case True
    then show ?thesis
      by (simp add: str_nat.simps[of n] digits_value_def digit_val_digit_char)
  next
    case False
    then have "digits_value (str_nat n) = digits_value (str_nat (n div 10)) * 10 + n mod 10"
      by (simp add: str_nat.simps[of n] digits_value_snoc digit_val_digit_char)
    also have "\<dots> = n div 10 * 10 + n mod 10" using False "1.IH" by simp
    finally show ?thesis by simp
  qed
qed

lemma digits_us_all_digits: "\<forall>c \<in> set s. is_digit c \<Longrightarrow> digits_us b s \<longleftrightarrow> b \<or> s \<noteq> []"
  by (induction s arbitrary: b) auto

lemma dropWhile_hd: "s \<noteq> [] \<Longrightarrow> \<not> P (hd s) \<Longrightarrow> dropWhile P s = s"
  by (cases s) simp_all

lemma str_nat_inject: "str_nat i = str_nat j \<Longrightarrow> i = j"
  using digits_value_str_nat by metis

lemma py_int_str_nat: "py_int (str_nat n) = Inr (int n)"
proof -
  let ?s = "str_nat n"
  have ne: "?s \<noteq> []" by (rule str_nat_not_Nil)
  have isd: "\<forall>c \<in> set ?s. is_digit c"
    using str_nat_digits is_digit_digit_char by blast
  from ne have "hd ?s \<in> set ?s" by simp
  then obtain d where d: "d < 10" "hd ?s = digit_char d" using str_nat_digits by blast
  from ne have "last ?s \<in> set ?s" by simp
  then obtain e where e: "e < 10" "last ?s = digit_char e" using str_nat_digits by blast
  have h: "\<not> is_space (hd ?s)" "hd ?s \<noteq> CHR ''-''" "hd ?s \<noteq> CHR ''+''"
    using digit_char_plain[OF d(1)] by (simp_all add: d(2))
  have l: "\<not> is_space (last ?s)"
    using digit_char_plain[OF e(1)] by (simp add: e(2))
  have 1: "dropWhile is_space ?s = ?s" using ne h(1) by (rule dropWhile_hd)
  have "hd (rev ?s) = last ?s" using ne by (simp add: hd_rev)
  with l ne have 2: "dropWhile is_space (rev ?s) = rev ?s"
    by (intro dropWhile_hd) simp_all
  have st: "strip ?s = ?s" by (simp add: strip_def 1 2)
  have f: "filter is_digit ?s = ?s" using isd by simp
  have du: "digits_us False ?s" using isd ne by (simp add: digits_us_all_digits)
  show ?thesis
    unfolding py_int_def st Let_def using ne h du by (simp add: f digits_value_str_nat)
qed

subsection \<open>Splitting at the separator\<close>

lemma split_from_Nil: "split_from sep piece [] = [rev piece]"
  by (simp add: split_from.simps)

lemma split_from_Cons:
  "split_from sep piece (c # cs) =
     (if sep \<noteq> [] \<and> take (length sep) (c # cs) = sep
      then rev piece # split_from sep [] (drop (length sep) (c # cs))
      else split_from sep (c # piece) cs)"
  by (subst split_from.simps) simp

lemma split_from_not_Nil: "split_from sep piece s \<noteq> []"
  by (induction s arbitrary: piece) (simp_all add: split_from_Nil split_from_Cons)

lemma split_from_no_sep:
  assumes "\<forall>k < length s. take (length sep) (drop k s) \<noteq> sep"
  shows "split_from sep piece s = [rev piece @ s]"
  using assms
proof (induction s arbitrary: piece)
  case Nil
  then show ?case by (simp add: split_from_Nil)
next
  case (Cons c cs)
  from Cons.prems have 0: "take (length sep) (c # cs) \<noteq> sep" by force
  have "\<forall>k < length cs. take (length sep) (drop k cs) \<noteq> sep"
  proof (intro allI impI)
    fix k assume "k < length cs"
    then have "Suc k < length (c # cs)" by simp
    with Cons.prems have "take (length sep) (drop (Suc k) (c # cs)) \<noteq> sep" by blast
    then show "take (length sep) (drop k cs) \<noteq> sep" by simp
  qed
  then have "split_from sep (c # piece) cs = [rev (c # piece) @ cs]" by (rule Cons.IH)
  with 0 show ?case by (simp add: split_from_Cons)
qed

lemma split_from_at_sep:
  assumes "sep \<noteq> []" "\<forall>k < length xs. take (length sep) (drop k (xs @ sep @ ys)) \<noteq> sep"
  shows "split_from sep piece (xs @ sep @ ys) = (rev piece @ xs) # split_from sep [] ys"
  using assms(2)
proof (induction xs arbitrary: piece)
  case Nil
  from assms(1) obtain c cs where s: "sep @ ys = c # cs" by (cases sep) auto
  have "split_from sep piece (c # cs) = rev piece # split_from sep [] (drop (length sep) (c # cs))"
    unfolding split_from_Cons using assms(1) by (simp flip: s)
  then show ?case by (simp flip: s)
next
  case (Cons x xs)
  from Cons.prems have 0: "take (length sep) ((x # xs) @ sep @ ys) \<noteq> sep" by force
  have "\<forall>k < length xs. take (length sep) (drop k (xs @ sep @ ys)) \<noteq> sep"
  proof (intro allI impI)
    fix k assume "k < length xs"
    then have "Suc k < length (x # xs)" by simp
    with Cons.prems have "take (length sep) (drop (Suc k) ((x # xs) @ sep @ ys)) \<noteq> sep" by blast
    then show "take (length sep) (drop k (xs @ sep @ ys)) \<noteq> sep" by simp
  qed
  then have "split_from sep (x # piece) (xs @ sep @ ys) = (rev (x # piece) @ xs) # split_from sep [] ys"
    by (rule Cons.IH)
  with 0 show ?case by (simp add: split_from_Cons)
qed

lemma split_from_occurrence:
  assumes "sep \<noteq> []" "k < length s" "take (length sep) (drop k s) = sep"
  shows "2 \<le> length (split_from sep piece s)"
  using assms(2,3)
proof (induction s arbitrary: piece k)
  case Nil
  then show ?case by simp
next
  case (Cons c cs)
  show ?case
  proof (cases "take (length sep) (c # cs) = sep")
    case True
    have "split_from sep [] (drop (length sep) (c # cs)) \<noteq> []" by (rule split_from_not_Nil)
    then have "1 \<le> length (split_from sep [] (drop (length sep) (c # cs)))"
      by (simp add: Suc_le_eq)
    with True assms(1) show ?thesis by (simp add: split_from_Cons)
  next
    case False
    with Cons.prems obtain j where j: "k = Suc j" by (cases k) auto
    with Cons.prems have "j < length cs" "take (length sep) (drop j cs) = sep" by simp_all
    then have "2 \<le> length (split_from sep (c # piece) cs)" by (rule Cons.IH)
    with False show ?thesis by (simp add: split_from_Cons)
  qed
qed

lemma plain_name_no_sep:
  assumes "plain_name par" "k < length par"
  shows "take (length ''___'') (drop k par) \<noteq> ''___''"
proof
  assume "take (length ''___'') (drop k par) = ''___''"
  from split_from_occurrence[OF _ assms(2) this, of "[]"]
  have "2 \<le> length (py_split par ''___'')" by (simp add: py_split_def)
  with assms(1) show False by (simp add: plain_name_def)
qed

lemma py_split_plain: "plain_name par \<Longrightarrow> py_split par ''___'' = [par]"
  by (simp add: plain_name_def)

lemma str_nat_no_sep:
  assumes "k < length (str_nat i)"
  shows "take (length ''___'') (drop k (str_nat i)) \<noteq> ''___''"
proof
  assume eq: "take (length ''___'') (drop k (str_nat i)) = ''___''"
  from assms have "hd (take (length ''___'') (drop k (str_nat i))) = str_nat i ! k"
    by (simp add: hd_drop_conv_nth)
  with eq have "str_nat i ! k = CHR ''_''" by simp
  moreover from assms have "str_nat i ! k \<in> set (str_nat i)" by simp
  ultimately obtain d where "d < 10" "digit_char d = CHR ''_''"
    using str_nat_digits by metis
  with digit_char_plain show False by blast
qed

lemma split_from_str_nat: "split_from ''___'' [] (str_nat i) = [str_nat i]"
proof -
  have "\<forall>k < length (str_nat i). take (length ''___'') (drop k (str_nat i)) \<noteq> ''___''"
    using str_nat_no_sep by blast
  from split_from_no_sep[OF this, of "[]"] show ?thesis by simp
qed

lemma window_at_end:
  assumes "\<forall>j < length sep. sep ! j = c" "par \<noteq> []" "last par \<noteq> c"
      and "k < length par" "length par < k + length sep"
  shows "take (length sep) (drop k (par @ sep @ ds)) \<noteq> sep"
proof
  let ?w = "par @ sep @ ds"
  assume eq: "take (length sep) (drop k ?w) = sep"
  define j where "j = length par - 1 - k"
  from assms(4,5) have j: "j < length sep" "k + j = length par - 1" by (simp_all add: j_def)
  have "take (length sep) (drop k ?w) ! j = drop k ?w ! j"
    using j(1) by (rule nth_take)
  also have "\<dots> = ?w ! (k + j)"
    using assms(4) by (intro nth_drop) simp
  finally have "sep ! j = ?w ! (k + j)" unfolding eq .
  with assms(1) j(1) have "?w ! (k + j) = c" by simp
  moreover have "?w ! (length par - 1) = last par"
    using assms(2) by (simp add: nth_append last_conv_nth)
  ultimately show False using assms(3) j(2) by simp
qed

lemma take_drop_append_left:
  "k + n \<le> length xs \<Longrightarrow> take n (drop k (xs @ ys)) = take n (drop k xs)"
  by simp

lemma sep_chars: "\<forall>j < length ''___''. ''___'' ! j = CHR ''_''"
  by (auto simp add: less_Suc_eq)

lemma vector_name_window:
  assumes "vector_name par" "k < length par"
  shows "take (length ''___'') (drop k (par @ ''___'' @ ds)) \<noteq> ''___''"
proof (cases "k + length ''___'' \<le> length par")
  case True
  then have e: "take (length ''___'') (drop k (par @ ''___'' @ ds)) = take (length ''___'') (drop k par)"
    by (rule take_drop_append_left)
  from assms have pl: "plain_name par" by (simp add: vector_name_def)
  show ?thesis unfolding e by (rule plain_name_no_sep[OF pl assms(2)])
next
  case False
  from assms have "par \<noteq> []" "last par \<noteq> CHR ''_''" by (auto simp add: vector_name_def)
  then show ?thesis
    using False assms(2) by (intro window_at_end[OF sep_chars]) simp_all
qed

lemma py_split_flat_key:
  assumes "vector_name par"
  shows "py_split (flat_key par i) ''___'' = [par, str_nat i]"
proof -
  have "\<forall>k < length par. take (length ''___'') (drop k (par @ ''___'' @ str_nat i)) \<noteq> ''___''"
    using vector_name_window[OF assms] by blast
  then have "split_from ''___'' [] (par @ ''___'' @ str_nat i) =
          (rev [] @ par) # split_from ''___'' [] (str_nat i)"
    by (intro split_from_at_sep) simp_all
  then show ?thesis by (simp add: py_split_def flat_key_def split_from_str_nat)
qed

subsection \<open>One round of the inverse\<close>

lemma flat_key_not_plain:
  assumes "vector_name q" "plain_name p"
  shows "flat_key q i \<noteq> p"
proof
  assume "flat_key q i = p"
  then have "py_split (flat_key q i) ''___'' = py_split p ''___''" by simp
  then show False
    by (simp add: py_split_flat_key[OF assms(1)] py_split_plain[OF assms(2)])
qed

lemma flat_key_inject:
  assumes "vector_name p" "vector_name q" "flat_key p i = flat_key q j"
  shows "p = q \<and> i = j"
proof -
  from assms(3) have "py_split (flat_key p i) ''___'' = py_split (flat_key q j) ''___''" by simp
  then have "p = q" "str_nat i = str_nat j"
    by (simp_all add: py_split_flat_key assms(1,2))
  then show ?thesis using str_nat_inject by blast
qed

lemma update_set_entry:
  assumes "p \<in> fst ` set d" "distinct (map fst d)"
  shows "AList.update p t d = set_entry p t d"
  using assms
proof (induction d)
  case Nil
  then show ?case by simp
next
  case (Cons e d)
  obtain q u where e: "e = (q, u)" by (cases e)
  show ?case
  proof (cases "q = p")
    case True
    with Cons.prems e have "p \<notin> fst ` set d" by auto
    then have "map (\<lambda>(q, u). (q, if q = p then t else u)) d = d"
      by (induction d) auto
    with True e show ?thesis by (simp add: set_entry_def)
  next
    case False
    with Cons.prems e have "p \<in> fst ` set d" "distinct (map fst d)" by auto
    then have "AList.update p t d = set_entry p t d" by (rule Cons.IH)
    with False e show ?thesis by (simp add: set_entry_def)
  qed
qed

lemma set_entry_keys [simp]: "map fst (set_entry p t d) = map fst d"
  by (simp add: set_entry_def case_prod_unfold)

lemma reverse_item_scalar:
  assumes "plain_name p"
  shows "reverse_item (p, v) pd em = (Inr (AList.update p (Scalar v) pd), em)"
  by (simp add: reverse_item_def py_split_plain[OF assms])

lemma array_setitem_nat: "i < length a \<Longrightarrow> array_setitem a (int i) v = Inr (a[i := v])"
  by (simp add: array_setitem_def)

lemma reverse_item_vector:
  assumes "vector_name p" "map_of pd p = Some (Vector ws)" "i < length ws"
  shows "reverse_item (flat_key p i, v) pd em =
           (Inr (AList.update p (Vector (ws[i := v])) pd),
            AList.update p (Vector (ws[i := v])) em)"
  by (simp add: reverse_item_def py_split_flat_key[OF assms(1)] assms(2) py_int_str_nat
      array_setitem_nat[OF assms(3)])

lemma rebuilt_set_entry:
  assumes "\<And>q u. (q, u) \<in> set pd \<Longrightarrow>
             rebuilt_value part1 q (if q = p then t else u) = rebuilt_value part2 q u"
  shows "rebuilt part1 (set_entry p t pd) = rebuilt part2 pd"
proof -
  have "(\<lambda>(par, t). (par, rebuilt_value part1 par t)) ((\<lambda>(q, u). (q, if q = p then t else u)) e) =
        (\<lambda>(par, t). (par, rebuilt_value part2 par t)) e" if "e \<in> set pd" for e
  proof -
    obtain q u where e: "e = (q, u)" by (cases e)
    with that assms[of q u] show ?thesis by simp
  qed
  then show ?thesis
    unfolding rebuilt_def set_entry_def map_map o_def by (intro map_cong refl)
qed

lemma entry_unique:
  assumes "distinct (map fst d)" "(q, u) \<in> set d" "(q, u') \<in> set d"
  shows "u = u'"
  using assms by (meson eq_key_imp_eq_value)

lemma well_named_entry: "\<forall>it \<in> set pd. well_named it \<Longrightarrow> (p, t) \<in> set pd \<Longrightarrow> well_named (p, t)"
  by blast

subsection \<open>The inverse on a flat mapping\<close>

lemma rebuilt_Nil: "rebuilt [] d = d"
proof -
  have "rebuilt_value [] par t = t" for par t
    by (cases t) (simp_all add: map_nth)
  then show ?thesis by (simp add: rebuilt_def)
qed

lemma rebuilt_scalar_step:
  assumes d: "distinct (map fst pd)" and wn: "\<forall>it \<in> set pd. well_named it"
      and p: "(p, Scalar x) \<in> set pd" and fresh: "p \<notin> fst ` set rest"
  shows "rebuilt rest (set_entry p (Scalar v) pd) = rebuilt ((p, v) # rest) pd"
proof (rule rebuilt_set_entry)
  fix q u
  assume qu: "(q, u) \<in> set pd"
  from well_named_entry[OF wn p] have pl: "plain_name p" by simp
  from fresh have none: "map_of rest p = None" by (simp add: map_of_eq_None_iff)
  show "rebuilt_value rest q (if q = p then Scalar v else u) = rebuilt_value ((p, v) # rest) q u"
  proof (cases "q = p")
    case True
    with qu have "(p, u) \<in> set pd" by simp
    then have "u = Scalar x" using p by (rule entry_unique[OF d])
    with True none show ?thesis by simp
  next
    case False
    show ?thesis
    proof (cases u)
      case (Scalar y)
      with False show ?thesis by simp
    next
      case (Vector ws)
      with well_named_entry[OF wn qu] have "vector_name q" by simp
      then have "flat_key q i \<noteq> p" for i using pl by (rule flat_key_not_plain)
      with False Vector show ?thesis by simp
    qed
  qed
qed

lemma rebuilt_vector_step:
  assumes d: "distinct (map fst pd)" and wn: "\<forall>it \<in> set pd. well_named it"
      and p: "(p, Vector ws) \<in> set pd" and i: "i < length ws"
      and fresh: "flat_key p i \<notin> fst ` set rest"
  shows "rebuilt rest (set_entry p (Vector (ws[i := v])) pd) = rebuilt ((flat_key p i, v) # rest) pd"
proof (rule rebuilt_set_entry)
  fix q u
  assume qu: "(q, u) \<in> set pd"
  from well_named_entry[OF wn p] have vn: "vector_name p" by simp
  from fresh have none: "map_of rest (flat_key p i) = None" by (simp add: map_of_eq_None_iff)
  show "rebuilt_value rest q (if q = p then Vector (ws[i := v]) else u) =
          rebuilt_value ((flat_key p i, v) # rest) q u"
  proof (cases "q = p")
    case True
    with qu have "(p, u) \<in> set pd" by simp
    then have u: "u = Vector ws" using p by (rule entry_unique[OF d])
    have "(case map_of rest (flat_key p j) of Some v' \<Rightarrow> v' | None \<Rightarrow> ws[i := v] ! j) =
          (case map_of ((flat_key p i, v) # rest) (flat_key p j) of Some v' \<Rightarrow> v' | None \<Rightarrow> ws ! j)"
      if "j < length ws" for j
    proof (cases "j = i")
      case True
      with none i show ?thesis by simp
    next
      case False
      then have "flat_key p j \<noteq> flat_key p i" using flat_key_inject[OF vn vn] by blast
      with False show ?thesis by (simp split: option.split)
    qed
    then have "map (\<lambda>j. case map_of rest (flat_key p j) of Some v' \<Rightarrow> v' | None \<Rightarrow> ws[i := v] ! j)
                 [0 ..< length ws] =
               map (\<lambda>j. case map_of ((flat_key p i, v) # rest) (flat_key p j) of
                           Some v' \<Rightarrow> v' | None \<Rightarrow> ws ! j) [0 ..< length ws]"
      by (intro map_cong refl) simp
    then show ?thesis unfolding True u by simp
  next
    case False
    show ?thesis
    proof (cases u)
      case (Scalar y)
      with well_named_entry[OF wn qu] have "plain_name q" by simp
      with vn have "flat_key p i \<noteq> q" by (rule flat_key_not_plain)
      with False Scalar show ?thesis by simp
    next
      case (Vector us)
      with well_named_entry[OF wn qu] have "vector_name q" by simp
      then have "flat_key q j \<noteq> flat_key p i" for j
        using flat_key_inject[OF _ vn] False by blast
      with False Vector show ?thesis by simp
    qed
  qed
qed

lemma set_entry_invariants:
  assumes d: "distinct (map fst pd)" and wn: "\<forall>it \<in> set pd. well_named it"
      and p: "(p, t) \<in> set pd" and k: "well_named (p, t') = well_named (p, t)"
         "flat_names_of (p, t') = flat_names_of (p, t)"
  shows "distinct (map fst (set_entry p t' pd))" "\<forall>it \<in> set (set_entry p t' pd). well_named it"
        "flat_names (set_entry p t' pd) = flat_names pd"
proof -
  show "distinct (map fst (set_entry p t' pd))" using d by simp
  have wt: "well_named (p, t')" using well_named_entry[OF wn p] k(1) by simp
  have "well_named (q, if q = p then t' else u)" if "(q, u) \<in> set pd" for q u
  proof (cases "q = p")
    case True
    with wt show ?thesis by simp
  next
    case False
    with well_named_entry[OF wn that] show ?thesis by simp
  qed
  then show "\<forall>it \<in> set (set_entry p t' pd). well_named it"
    by (auto simp add: set_entry_def)
  have "flat_names_of (q, if q = p then t' else u) = flat_names_of (q, u)"
    if "(q, u) \<in> set pd" for q u
  proof (cases "q = p")
    case True
    with that have "u = t" using entry_unique[OF d _ p] by blast
    with True k(2) show ?thesis by simp
  next
    case False
    then show ?thesis by simp
  qed
  then have "map flat_names_of (set_entry p t' pd) = map flat_names_of pd"
    by (auto simp add: set_entry_def)
  then show "flat_names (set_entry p t' pd) = flat_names pd" by (simp add: flat_names_def)
qed

lemma nan_scalars_set_scalar:
  assumes "distinct (map fst pd)" "(p, Scalar x) \<in> set pd"
  shows "nan_scalars (set_entry p (Scalar v) pd) = nan_scalars pd"
proof -
  have "nan_scalar (if q = p then Scalar v else u) = nan_scalar u" if "(q, u) \<in> set pd" for q u
  proof (cases "q = p")
    case True
    with that have "u = Scalar x" using entry_unique[OF assms(1) _ assms(2)] by blast
    with True show ?thesis by simp
  next
    case False
    then show ?thesis by simp
  qed
  then show ?thesis by (auto simp add: nan_scalars_def set_entry_def)
qed

lemma nan_scalars_keys [simp]: "map fst (nan_scalars d) = map fst d"
  by (simp add: nan_scalars_def case_prod_unfold)

lemma nan_scalars_set_vector:
  "nan_scalars (set_entry p (Vector a) pd) = set_entry p (Vector a) (nan_scalars pd)"
  by (auto simp add: nan_scalars_def set_entry_def)

lemma flat_names_entry:
  assumes "k \<in> set (flat_names pd)"
  obtains (scalar) x where "(k, Scalar x) \<in> set pd"
        | (vector) p ws i where "(p, Vector ws) \<in> set pd" "i < length ws" "k = flat_key p i"
proof -
  from assms obtain p t where pt: "(p, t) \<in> set pd" "k \<in> set (flat_names_of (p, t))"
    by (auto simp add: flat_names_def)
  show thesis
  proof (cases t)
    case (Scalar x)
    with pt scalar show thesis by simp
  next
    case (Vector ws)
    with pt vector show thesis by auto
  qed
qed

lemma reverse_loop_rebuilt:
  assumes "distinct (map fst pd)" "\<forall>it \<in> set pd. well_named it"
      and "distinct (map fst part)" "fst ` set part \<subseteq> set (flat_names pd)"
  shows "reverse_loop part pd (nan_scalars pd) =
           (Inr (rebuilt part pd), nan_scalars (rebuilt part pd))"
  using assms
proof (induction part arbitrary: pd)
  case Nil
  then show ?case by (simp add: rebuilt_Nil)
next
  case (Cons item rest)
  obtain k v where item: "item = (k, v)" by (cases item)
  from Cons.prems item have fresh: "k \<notin> fst ` set rest" and dr: "distinct (map fst rest)"
    and kin: "k \<in> set (flat_names pd)" and sub: "fst ` set rest \<subseteq> set (flat_names pd)"
    by auto
  note d = Cons.prems(1) and wn = Cons.prems(2)
  from kin show ?case
  proof (cases rule: flat_names_entry)
    case (scalar x)
    from well_named_entry[OF wn scalar] have pl: "plain_name k" by simp
    from scalar have kk: "k \<in> fst ` set pd" by force
    let ?pd1 = "set_entry k (Scalar v) pd"
    have u: "AList.update k (Scalar v) pd = ?pd1" using kk d by (rule update_set_entry)
    have inv: "distinct (map fst ?pd1)" "\<forall>it \<in> set ?pd1. well_named it"
      "flat_names ?pd1 = flat_names pd"
      using set_entry_invariants[OF d wn scalar, of "Scalar v"] by simp_all
    have "reverse_loop rest ?pd1 (nan_scalars ?pd1) =
            (Inr (rebuilt rest ?pd1), nan_scalars (rebuilt rest ?pd1))"
      using inv dr sub by (intro Cons.IH) simp_all
    moreover have "nan_scalars ?pd1 = nan_scalars pd" using d scalar by (rule nan_scalars_set_scalar)
    moreover have "rebuilt rest ?pd1 = rebuilt ((k, v) # rest) pd"
      using d wn scalar fresh by (rule rebuilt_scalar_step)
    ultimately show ?thesis
      by (simp add: item reverse_item_scalar[OF pl] u)
  next
    case (vector p ws i)
    from well_named_entry[OF wn vector(1)] have vn: "vector_name p" by simp
    from vector(1) d have m: "map_of pd p = Some (Vector ws)" by simp
    from vector(1) have pk: "p \<in> fst ` set pd" by force
    let ?t = "Vector (ws[i := v])"
    let ?pd1 = "set_entry p ?t pd"
    have u: "AList.update p ?t pd = ?pd1" using pk d by (rule update_set_entry)
    have "p \<in> fst ` set (nan_scalars pd)" "distinct (map fst (nan_scalars pd))"
      using pk d by (simp_all flip: set_map)
    then have u': "AList.update p ?t (nan_scalars pd) = nan_scalars ?pd1"
      by (simp add: update_set_entry nan_scalars_set_vector)
    have inv: "distinct (map fst ?pd1)" "\<forall>it \<in> set ?pd1. well_named it"
      "flat_names ?pd1 = flat_names pd"
      using set_entry_invariants[OF d wn vector(1), of ?t] by simp_all
    have "reverse_loop rest ?pd1 (nan_scalars ?pd1) =
            (Inr (rebuilt rest ?pd1), nan_scalars (rebuilt rest ?pd1))"
      using inv dr sub by (intro Cons.IH) simp_all
    moreover have "rebuilt rest ?pd1 = rebuilt ((k, v) # rest) pd"
      unfolding vector(3) using d wn vector(1,2) fresh[unfolded vector(3)]
      by (rule rebuilt_vector_step)
    ultimately show ?thesis
      by (simp add: item vector(3) reverse_item_vector[OF vn m vector(2)] u u')
  qed
qed

subsection \<open>The flat mapping and the placeholders\<close>

lemma map_fst_keyed: "map fst (map (\<lambda>(i, sv). (f i, sv)) xs) = map f (map fst xs)"
  by (induction xs) auto

lemma flat_items_names: "map fst (flat_items e) = flat_names_of e"
proof -
  obtain p t where e: "e = (p, t)" by (cases e)
  show ?thesis
  proof (cases t)
    case (Scalar x)
    with e show ?thesis by simp
  next
    case (Vector vs)
    have "map fst (map (\<lambda>(i, subvalue). (flat_key p i, subvalue)) (enumerate 0 vs)) =
          map (flat_key p) (map fst (enumerate 0 vs))"
      by (rule map_fst_keyed)
    also have "\<dots> = map (flat_key p) [0 ..< length vs]"
      by (simp only: map_fst_enumerate add_0)
    finally show ?thesis using e Vector by simp
  qed
qed

lemma update_fresh: "k \<notin> fst ` set d \<Longrightarrow> AList.update k v d = d @ [(k, v)]"
  by (induction d) auto

lemma flatten_item_fresh:
  assumes "fst e \<notin> fst ` set em" "distinct (flat_names_of e)"
      and "set (flat_names_of e) \<inter> fst ` set flat = {}"
  shows "flatten_item [] e (flat, em) = (flat @ flat_items e, em @ [template_entry e])"
proof -
  obtain p t where e: "e = (p, t)" by (cases e)
  show ?thesis
  proof (cases t)
    case (Scalar x)
    with assms e show ?thesis by (simp add: flatten_item_def update_fresh)
  next
    case (Vector vs)
    have "dict_store flat (flat_items e) = flat @ flat_items e"
      using assms(2,3) by (intro dict_store_fresh) (auto simp add: flat_items_names simp flip: set_map)
    with assms(1) e Vector show ?thesis by (simp add: flatten_item_def update_fresh)
  qed
qed

lemma flat_names_Cons: "flat_names (e # d) = flat_names_of e @ flat_names d"
  by (simp add: flat_names_def)

lemma fold_flatten_item:
  assumes "distinct (map fst em @ map fst ps)" "distinct (map fst flat @ flat_names ps)"
  shows "fold (flatten_item []) ps (flat, em) =
           (flat @ concat (map flat_items ps), em @ map template_entry ps)"
  using assms
proof (induction ps arbitrary: flat em)
  case Nil
  then show ?case by simp
next
  case (Cons e ps)
  have te: "fst (template_entry e) = fst e" by (cases e rule: template_entry.cases) simp_all
  from Cons.prems have 1: "flatten_item [] e (flat, em) = (flat @ flat_items e, em @ [template_entry e])"
    by (intro flatten_item_fresh) (auto simp add: flat_names_Cons simp flip: set_map)
  have "fold (flatten_item []) ps (flat @ flat_items e, em @ [template_entry e]) =
          ((flat @ flat_items e) @ concat (map flat_items ps),
           (em @ [template_entry e]) @ map template_entry ps)"
    using Cons.prems by (intro Cons.IH) (auto simp add: flat_names_Cons flat_items_names te)
  with 1 show ?case by simp
qed

lemma flat_names_of_distinct: "well_named e \<Longrightarrow> distinct (flat_names_of e)"
proof (cases e rule: flat_names_of.cases)
  case (1 par x)
  then show ?thesis by simp
next
  case (2 par vs)
  assume "well_named e"
  with 2 have vn: "vector_name par" by simp
  have "inj (flat_key par)"
    using flat_key_inject[OF vn vn] by (auto intro: injI)
  then have "inj_on (flat_key par) (set [0 ..< length vs])" by (rule inj_on_subset) simp
  then show ?thesis using 2 by (simp add: distinct_map)
qed

lemma flat_names_of_disjoint:
  assumes "well_named (p, t)" "well_named (q, u)" "p \<noteq> q"
  shows "set (flat_names_of (p, t)) \<inter> set (flat_names_of (q, u)) = {}"
proof (cases t; cases u)
  fix x y assume "t = Scalar x" "u = Scalar y"
  with assms(3) show ?thesis by simp
next
  fix x us assume tu: "t = Scalar x" "u = Vector us"
  with assms have "plain_name p" "vector_name q" by simp_all
  from flat_key_not_plain[OF this(2,1)] tu show ?thesis by auto
next
  fix ts y assume tu: "t = Vector ts" "u = Scalar y"
  with assms have "vector_name p" "plain_name q" by simp_all
  from flat_key_not_plain[OF this] tu show ?thesis by auto
next
  fix ts us assume tu: "t = Vector ts" "u = Vector us"
  with assms have "vector_name p" "vector_name q" by simp_all
  from flat_key_inject[OF this] assms(3) tu show ?thesis by auto
qed

lemma distinct_flat_names:
  assumes "distinct (map fst d)" "\<forall>it \<in> set d. well_named it"
  shows "distinct (flat_names d)"
  using assms
proof (induction d)
  case Nil
  then show ?case by (simp add: flat_names_def)
next
  case (Cons e d)
  obtain p t where e: "e = (p, t)" by (cases e)
  from Cons.prems have we: "well_named (p, t)" and wd: "\<forall>it \<in> set d. well_named it"
    and dd: "distinct (map fst d)" and pn: "p \<notin> fst ` set d"
    by (auto simp add: e)
  have "set (flat_names_of (p, t)) \<inter> set (flat_names d) = {}"
  proof -
    have "set (flat_names_of (p, t)) \<inter> set (flat_names_of it) = {}" if "it \<in> set d" for it
    proof -
      obtain q u where it: "it = (q, u)" by (cases it)
      with that pn have "p \<noteq> q" by force
      with we well_named_entry[OF wd that[unfolded it]] show ?thesis
        unfolding it by (rule flat_names_of_disjoint)
    qed
    then show ?thesis by (auto simp add: flat_names_def)
  qed
  with flat_names_of_distinct[OF we] Cons.IH[OF dd wd] show ?case
    by (simp add: flat_names_Cons e)
qed

lemma flatten_parameter_dict_all:
  assumes "distinct (map fst params)" "\<forall>it \<in> set params. well_named it"
  shows "flatten_parameter_dict params [] =
           (concat (map flat_items params), map template_entry params)"
  using fold_flatten_item[of "[]" params "[]"] assms distinct_flat_names[OF assms]
  by (simp add: flatten_parameter_dict_def)

subsection \<open>The round trip\<close>

lemma entry_shape_eq:
  assumes "entry_shape a = entry_shape b"
  shows "fst a = fst b" "well_named a = well_named b" "flat_names_of a = flat_names_of b"
  using assms
  by (cases a rule: entry_shape.cases; cases b rule: entry_shape.cases; simp)+

lemma same_shape_all2:
  "map entry_shape xs = map entry_shape ys \<Longrightarrow>
     list_all2 (\<lambda>a b. entry_shape a = entry_shape b) xs ys"
proof (induction xs arbitrary: ys)
  case Nil
  then show ?case by simp
next
  case (Cons x xs)
  then obtain y ys' where ys: "ys = y # ys'" by (cases ys) simp_all
  with Cons.prems have "entry_shape x = entry_shape y" "map entry_shape xs = map entry_shape ys'"
    by simp_all
  with Cons.IH[of ys'] show ?case by (simp add: ys)
qed

lemma same_shape_facts:
  assumes "map entry_shape xs = map entry_shape ys"
  shows "map fst xs = map fst ys" "flat_names xs = flat_names ys"
        "(\<forall>it \<in> set ys. well_named it) \<longrightarrow> (\<forall>it \<in> set xs. well_named it)"
proof -
  from assms have a: "list_all2 (\<lambda>a b. entry_shape a = entry_shape b) xs ys"
    by (rule same_shape_all2)
  show "map fst xs = map fst ys"
    using a
  proof (induction rule: list_all2_induct)
    case Nil
    then show ?case by simp
  next
    case (Cons x xs y ys)
    from entry_shape_eq(1)[OF Cons.hyps(1)] Cons.IH show ?case by simp
  qed
  show "flat_names xs = flat_names ys"
    using a
  proof (induction rule: list_all2_induct)
    case Nil
    then show ?case by simp
  next
    case (Cons x xs y ys)
    from entry_shape_eq(3)[OF Cons.hyps(1)] Cons.IH show ?case by (simp add: flat_names_Cons)
  qed
  show "(\<forall>it \<in> set ys. well_named it) \<longrightarrow> (\<forall>it \<in> set xs. well_named it)"
    using a
  proof (induction rule: list_all2_induct)
    case Nil
    then show ?case by simp
  next
    case (Cons x xs y ys)
    from entry_shape_eq(2)[OF Cons.hyps(1)] Cons.IH show ?case by simp
  qed
qed

lemma template_entry_shape: "entry_shape (template_entry e) = entry_shape e"
  by (cases e rule: template_entry.cases) (simp_all add: full_like_nan_def)

lemma empty_map_state_template: "empty_map_state params (map template_entry params)"
proof -
  have "(\<lambda>(par, t). (par, nan_scalar t)) (template_entry e) = template_entry e" for e
    by (cases e rule: template_entry.cases) simp_all
  then show ?thesis
    by (simp add: empty_map_state_def nan_scalars_def template_entry_shape)
qed

lemma entry_shape_nan_scalars: "map entry_shape (nan_scalars d) = map entry_shape d"
proof (induction d)
  case Nil
  then show ?case by (simp add: nan_scalars_def)
next
  case (Cons e d)
  have "entry_shape ((\<lambda>(par, t). (par, nan_scalar t)) e) = entry_shape e"
    by (cases e rule: entry_shape.cases) simp_all
  with Cons show ?case by (simp add: nan_scalars_def)
qed

lemma nan_scalars_idem: "nan_scalars (nan_scalars d) = nan_scalars d"
proof (induction d)
  case Nil
  then show ?case by (simp add: nan_scalars_def)
next
  case (Cons e d)
  have "(\<lambda>(par, t). (par, nan_scalar t)) ((\<lambda>(par, t). (par, nan_scalar t)) e) =
        (\<lambda>(par, t). (par, nan_scalar t)) e"
    by (cases e rule: entry_shape.cases) simp_all
  with Cons show ?case by (simp add: nan_scalars_def)
qed

lemma empty_map_state_nan_scalars:
  assumes "map entry_shape d = map entry_shape params"
  shows "empty_map_state params (nan_scalars d)"
  using assms by (simp add: empty_map_state_def entry_shape_nan_scalars nan_scalars_idem)

lemma flat_items_all_names: "map fst (concat (map flat_items ps)) = flat_names ps"
  by (induction ps) (simp_all add: flat_names_def flat_items_names)

lemma flat_lookup_scalar:
  assumes "distinct (map fst (concat (map flat_items params)))" "(p, Scalar x) \<in> set params"
  shows "map_of (concat (map flat_items params)) p = Some x"
proof -
  have "(p, x) \<in> set (flat_items (p, Scalar x))" by simp
  with assms(2) have "(p, x) \<in> set (concat (map flat_items params))" by force
  with assms(1) show ?thesis by simp
qed

lemma flat_lookup_vector:
  assumes "distinct (map fst (concat (map flat_items params)))" "(p, Vector vs) \<in> set params"
      and "i < length vs"
  shows "map_of (concat (map flat_items params)) (flat_key p i) = Some (vs ! i)"
proof -
  from assms(3) have "(i, vs ! i) \<in> set (enumerate 0 vs)" by (simp add: in_set_enumerate_eq)
  then have "(flat_key p i, vs ! i) \<in> set (flat_items (p, Vector vs))" by force
  with assms(2) have "(flat_key p i, vs ! i) \<in> set (concat (map flat_items params))" by force
  with assms(1) show ?thesis by simp
qed

lemma rebuilt_full:
  assumes d: "distinct (map fst (concat (map flat_items params)))"
      and sh: "map entry_shape em = map entry_shape params"
  shows "rebuilt (concat (map flat_items params)) em = params"
proof -
  let ?flat = "concat (map flat_items params)"
  let ?f = "\<lambda>(par, t). (par, rebuilt_value ?flat par t)"
  from sh have a: "list_all2 (\<lambda>a b. entry_shape a = entry_shape b) em params"
    by (rule same_shape_all2)
  have pw: "?f a = b" if "entry_shape a = entry_shape b" "b \<in> set params" for a b
  proof (cases b rule: entry_shape.cases)
    case (1 p x)
    with that(1) obtain x' where a: "a = (p, Scalar x')"
      by (cases a rule: entry_shape.cases) simp_all
    from that(2) 1 have "map_of ?flat p = Some x" by (intro flat_lookup_scalar[OF d]) simp
    with a 1 show ?thesis by simp
  next
    case (2 p vs)
    with that(1) obtain ws where a: "a = (p, Vector ws)" and l: "length ws = length vs"
      by (cases a rule: entry_shape.cases) simp_all
    have "map_of ?flat (flat_key p i) = Some (vs ! i)" if "i < length vs" for i
      using \<open>b \<in> set params\<close> 2 that by (intro flat_lookup_vector[OF d]) simp_all
    then have "map (\<lambda>i. case map_of ?flat (flat_key p i) of Some v \<Rightarrow> v | None \<Rightarrow> ws ! i)
                 [0 ..< length vs] = map (\<lambda>i. vs ! i) [0 ..< length vs]"
      by (intro map_cong refl) simp
    then show ?thesis by (simp add: a 2 l map_nth)
  qed
  have "list_all2 (\<lambda>a b. ?f a = b) em params"
    using a pw by (auto simp add: list_all2_conv_all_nth)
  then have "list_all2 (=) (map ?f em) params" by (simp add: list_all2_map1)
  then show ?thesis by (simp add: rebuilt_def list_all2_eq)
qed


text \<open>
  Claim C2, as the code has it. For a parameter mapping with distinct, well-formed names
  (no name contains the separator \<open>___\<close>, no vector name ends in an underscore) and
  nothing excluded: \<open>flatten_parameter_dict\<close> leaves \<open>empty_map\<close> in a state of the
  placeholders, and in every such state the inverse applied to the flat mapping returns
  the original mapping, names in order, and leaves \<open>empty_map\<close> in such a state again.
  So the round trip holds at the first call of the inverse and at every later one.
\<close>

theorem flatten_round_trip:
  assumes "distinct (map fst params)" "\<forall>it \<in> set params. well_named it"
      and "flatten_parameter_dict params [] = (flat, em0)"
      and "empty_map_state params em"
  shows "empty_map_state params em0 \<and>
         (\<exists>em'. reverse_mapper em flat = (Inr params, em') \<and> empty_map_state params em')"
proof -
  from flatten_parameter_dict_all[OF assms(1,2)] assms(3)
  have flat: "flat = concat (map flat_items params)" and em0: "em0 = map template_entry params"
    by simp_all
  from assms(4) have sh: "map entry_shape em = map entry_shape params" and ns: "nan_scalars em = em"
    by (simp_all add: empty_map_state_def)
  note f = same_shape_facts[OF sh]
  have dn: "distinct (flat_names params)" using assms(1,2) by (rule distinct_flat_names)
  have names: "map fst flat = flat_names params"
    unfolding flat by (rule flat_items_all_names)
  have "reverse_loop flat em (nan_scalars em) =
          (Inr (rebuilt flat em), nan_scalars (rebuilt flat em))"
  proof (rule reverse_loop_rebuilt)
    show "distinct (map fst em)" using f(1) assms(1) by simp
    show "\<forall>it \<in> set em. well_named it" using f(3) assms(2) by (rule mp)
    show "distinct (map fst flat)" using names dn by simp
    have "fst ` set flat = set (map fst flat)" by simp
    then show "fst ` set flat \<subseteq> set (flat_names em)" unfolding names f(2) by simp
  qed
  then have 1: "reverse_loop flat em em = (Inr (rebuilt flat em), nan_scalars (rebuilt flat em))"
    unfolding ns .
  have "distinct (map fst (concat (map flat_items params)))"
    using names[unfolded flat] dn by simp
  then have 2: "rebuilt flat em = params"
    unfolding flat using sh by (rule rebuilt_full)
  have 3: "reverse_mapper em flat = (Inr params, nan_scalars params)"
    unfolding reverse_mapper_def 1 2 ..
  have 4: "empty_map_state params (nan_scalars params)"
    by (rule empty_map_state_nan_scalars) (rule refl)
  have 5: "empty_map_state params em0"
    unfolding em0 by (rule empty_map_state_template)
  from 3 4 5 show ?thesis by (intro conjI exI[of _ "nan_scalars params"])
qed

text \<open>
  The theorem at a mapping of the vector \<open>a\<close> and the scalar \<open>b\<close>: the inverse gives
  the mapping back from the placeholders \<open>flatten_parameter_dict\<close> returns, and from a
  state in which the array of \<open>a\<close> holds other values.
\<close>

theorem flatten_round_trip_witness:
  "flatten_parameter_dict [(''a'', Vector [Some 1, Some 2]), (''b'', Scalar (Some 3))] [] =
     ([(''a___0'', Some 1), (''a___1'', Some 2), (''b'', Some 3)],
      [(''a'', Vector [None, None]), (''b'', Scalar None)]) \<and>
   fst (reverse_mapper [(''a'', Vector [None, None]), (''b'', Scalar None)]
          [(''a___0'', Some 1), (''a___1'', Some 2), (''b'', Some 3)]) =
     Inr [(''a'', Vector [Some 1, Some 2]), (''b'', Scalar (Some 3))] \<and>
   fst (reverse_mapper [(''a'', Vector [Some 7, Some 8]), (''b'', Scalar None)]
          [(''a___0'', Some 1), (''a___1'', Some 2), (''b'', Some 3)]) =
     Inr [(''a'', Vector [Some 1, Some 2]), (''b'', Scalar (Some 3))]"
proof -
  let ?P = "[(''a'', Vector [Some 1, Some 2]), (''b'', Scalar (Some 3))]"
  let ?F = "[(''a___0'', Some 1), (''a___1'', Some 2), (''b'', Some (3 :: real))]"
  let ?E = "[(''a'', Vector [None, None]), (''b'', Scalar None)]"
  let ?E' = "[(''a'', Vector [Some 7, Some 8]), (''b'', Scalar None)]"
  have d: "distinct (map fst ?P)" by simp
  have w: "\<forall>it \<in> set ?P. well_named it"
    by (simp add: vector_name_def plain_name_def py_split_def split_from.simps)
  have f: "flatten_parameter_dict ?P [] = (?F, ?E)" by code_simp
  have s: "empty_map_state ?P ?E" "empty_map_state ?P ?E'"
    by (simp_all add: empty_map_state_def nan_scalars_def)
  from flatten_round_trip[OF d w f s(1)] flatten_round_trip[OF d w f s(2)] f
  show ?thesis by auto
qed

text \<open>
  The claim as worded fails on names that are not well formed: the scalar \<open>a___0\<close> is
  read back as the entry \<open>0\<close> of a vector \<open>a\<close>, and the flat name \<open>k____0\<close> of the
  vector \<open>k_\<close> as an entry of a vector \<open>k\<close>; the inverse raises \<open>KeyError\<close>.
\<close>

theorem flatten_round_trip_counterexample:
  "flatten_parameter_dict [(''a___0'', Scalar (Some 1))] [] =
     ([(''a___0'', Some 1)], [(''a___0'', Scalar None)]) \<and>
   reverse_mapper [(''a___0'', Scalar None)] [(''a___0'', Some 1)] =
     (Inl KeyError, [(''a___0'', Scalar None)]) \<and>
   flatten_parameter_dict [(''k_'', Vector [Some 1])] [] =
     ([(''k____0'', Some 1)], [(''k_'', Vector [None])]) \<and>
   reverse_mapper [(''k_'', Vector [None])] [(''k____0'', Some 1)] =
     (Inl KeyError, [(''k_'', Vector [None])])"
  by code_simp

text \<open>
  Claim C9 at two calls of the inverse. Applied first to the partial mapping of
  \<open>a___0\<close> alone, the inverse leaves NaN at the absent entry \<open>1\<close> of \<open>a\<close>. Applied to it
  after a call on the full flat mapping, it returns the value \<open>2\<close> of that call there:
  the copy of \<open>empty_map\<close> is shallow and the earlier call has written into its arrays.
\<close>

theorem reverse_mapper_second_call:
  "flatten_parameter_dict [(''a'', Vector [Some 1, Some 2]), (''b'', Scalar (Some 3))] [] =
     ([(''a___0'', Some 1), (''a___1'', Some 2), (''b'', Some 3)],
      [(''a'', Vector [None, None]), (''b'', Scalar None)]) \<and>
   reverse_mapper [(''a'', Vector [None, None]), (''b'', Scalar None)] [(''a___0'', Some 5)] =
     (Inr [(''a'', Vector [Some 5, None]), (''b'', Scalar None)],
      [(''a'', Vector [Some 5, None]), (''b'', Scalar None)]) \<and>
   reverse_mapper [(''a'', Vector [None, None]), (''b'', Scalar None)]
       [(''a___0'', Some 1), (''a___1'', Some 2), (''b'', Some 3)] =
     (Inr [(''a'', Vector [Some 1, Some 2]), (''b'', Scalar (Some 3))],
      [(''a'', Vector [Some 1, Some 2]), (''b'', Scalar None)]) \<and>
   reverse_mapper [(''a'', Vector [Some 1, Some 2]), (''b'', Scalar None)] [(''a___0'', Some 5)] =
     (Inr [(''a'', Vector [Some 5, Some 2]), (''b'', Scalar None)],
      [(''a'', Vector [Some 5, Some 2]), (''b'', Scalar None)])"
  by code_simp

section \<open>Dispatch merges the free parameters by name\<close>

lemma parameterize_Params:
  assumes "model_parameters self = \<lparr>mp_parameters = Some parameters, mp_y0 = Some y0\<rparr>"
  shows "parameterize (Params ps) (model_parameters self) =
           Inr \<lparr>mp_parameters =
                  Some (dict_store parameters (dict_of (map (\<lambda>p. (param_name p, param_value p)) ps))),
                mp_y0 = Some y0\<rparr>"
  by (simp add: parameterize_def assms)

lemma merged_map_of:
  "map_of (dict_store parameters (dict_of kvs)) = map_of parameters ++ map_of (rev kvs)"
  by (simp add: dict_store_map_of map_of_rev_distinct dict_of_distinct dict_of_map_of)

text \<open>
  Claim C4, as the code has it. \<open>dispatch\<close> does not compare the names of \<open>theta\<close> with
  the declared free parameters: with the model parameters set, and \<open>theta\<close> given as the
  parameter objects that \<open>parameterize\<close> reads, it merges \<open>theta\<close> into the model
  parameters by name and constructs the evaluator from the result. Every name of \<open>theta\<close>
  is then a key, declared as a free parameter or not, and holds the value \<open>theta\<close> gives
  it last; the names outside \<open>theta\<close> keep their values.
\<close>

theorem dispatch_merges_by_name:
  assumes "model_parameters self = \<lparr>mp_parameters = Some parameters, mp_y0 = Some y0\<rparr>"
  shows "\<exists>merged.
           dispatch Evaluator self (Params ps) =
             Evaluator \<lparr>mp_parameters = Some merged, mp_y0 = Some y0\<rparr> \<and>
           map_of merged =
             map_of parameters ++ map_of (rev (map (\<lambda>p. (param_name p, param_value p)) ps)) \<and>
           (\<forall>p \<in> set ps. param_name p \<in> fst ` set merged) \<and>
           (\<forall>i < length ps. param_name (ps ! i) \<notin> param_name ` set (drop (Suc i) ps) \<longrightarrow>
              map_of merged (param_name (ps ! i)) = Some (param_value (ps ! i)))"
proof -
  let ?kvs = "map (\<lambda>p. (param_name p, param_value p)) ps"
  let ?merged = "dict_store parameters (dict_of ?kvs)"
  have 1: "dispatch Evaluator self (Params ps) =
             Evaluator \<lparr>mp_parameters = Some ?merged, mp_y0 = Some y0\<rparr>"
    by (simp add: dispatch_def parameterize_Params[OF assms])
  have 2: "map_of ?merged = map_of parameters ++ map_of (rev ?kvs)"
    by (rule merged_map_of)
  have 3: "\<forall>p \<in> set ps. param_name p \<in> fst ` set ?merged"
    by (force simp add: dict_store_keys dict_of_keys)
  have 4: "map_of ?merged (param_name (ps ! i)) = Some (param_value (ps ! i))"
    if i: "i < length ps" and l: "param_name (ps ! i) \<notin> param_name ` set (drop (Suc i) ps)" for i
  proof -
    have "map_of (dict_store [] (zip (map param_name ps) (map param_value ps)))
            (map param_name ps ! i) = Some (map param_value ps ! i)"
      using i l by (intro dict_store_last) (simp_all add: drop_map)
    moreover have "zip (map param_name ps) (map param_value ps) = ?kvs"
      by (induction ps) simp_all
    ultimately have "map_of (dict_of ?kvs) (param_name (ps ! i)) = Some (param_value (ps ! i))"
      using i by (simp add: dict_of_def)
    then show ?thesis
      by (simp add: dict_store_map_of map_of_rev_distinct dict_of_distinct map_add_def)
  qed
  from 1 2 3 4 show ?thesis by blast
qed

text \<open>
  The theorem at the example simulation and a \<open>theta\<close> with the undeclared name
  \<open>gamma\<close>, with the constructor that keeps the merged parameters.
\<close>

theorem dispatch_merges_by_name_witness:
  "model_parameters example_simulation =
     \<lparr>mp_parameters = Some [(''alpha'', 5), (''beta'', 1 / 50)], mp_y0 = Some []\<rparr> \<and>
   (\<exists>merged.
      dispatch Inr example_simulation
          (Params [\<lparr>param_name = ''alpha'', param_value = 2\<rparr>,
                   \<lparr>param_name = ''gamma'', param_value = 7\<rparr>]) =
        (Inr \<lparr>mp_parameters = Some merged, mp_y0 = Some []\<rparr>
           :: py_error + (real, (string, real) dict) model_parameters) \<and>
      map_of merged ''alpha'' = Some 2 \<and> map_of merged ''beta'' = Some (1 / 50) \<and>
      map_of merged ''gamma'' = Some 7)"
proof -
  have h: "model_parameters example_simulation =
     \<lparr>mp_parameters = Some [(''alpha'', 5), (''beta'', 1 / 50)], mp_y0 = Some []\<rparr>"
    by (simp add: example_simulation_def)
  from dispatch_merges_by_name[OF h, of Inr
         "[\<lparr>param_name = ''alpha'', param_value = 2\<rparr>, \<lparr>param_name = ''gamma'', param_value = 7\<rparr>]"]
  obtain merged where
    m: "dispatch Inr example_simulation
          (Params [\<lparr>param_name = ''alpha'', param_value = 2\<rparr>,
                   \<lparr>param_name = ''gamma'', param_value = 7\<rparr>]) =
        (Inr \<lparr>mp_parameters = Some merged, mp_y0 = Some []\<rparr>
           :: py_error + (real, (string, real) dict) model_parameters)"
       "map_of merged = map_of [(''alpha'', 5), (''beta'', 1 / 50)] ++
                        map_of (rev (map (\<lambda>p. (param_name p, param_value p))
                          [\<lparr>param_name = ''alpha'', param_value = 2 :: real\<rparr>,
                           \<lparr>param_name = ''gamma'', param_value = 7\<rparr>]))"
    by auto
  have "map_of merged ''alpha'' = Some 2" "map_of merged ''beta'' = Some (1 / 50)"
       "map_of merged ''gamma'' = Some 7"
    by (simp_all add: m(2) map_add_def)
  with h m(1) show ?thesis by blast
qed

text \<open>
  The claim as worded fails there: the undeclared name \<open>gamma\<close> raises no error, it is
  stored next to the declared parameters and the evaluator is constructed.
\<close>

theorem dispatch_unknown_name_counterexample:
  "''gamma'' \<notin> set (map param_name (free_model_parameters example_simulation)) \<and>
   dispatch Inr example_simulation (Params [\<lparr>param_name = ''gamma'', param_value = 7\<rparr>]) =
     Inr \<lparr>mp_parameters = Some [(''alpha'', 5), (''beta'', 1 / 50), (''gamma'', 7)],
          mp_y0 = Some []\<rparr>"
  by (simp add: dispatch_def parameterize_def example_simulation_def dict_of_def)

section \<open>The fitted range of the data scaler\<close>







lemma MinMaxScaler_fit_error:
  assumes "MinMaxScaler_fit ops X = Inl e"
  shows "e = ValueError"
  using assms by (auto simp add: MinMaxScaler_fit_def Let_def split: list.splits if_splits)

text \<open>
  Without a row of observations the method raises a \<open>ValueError\<close>: when the stack does
  not fail, the scaler is fitted on the two rows of the bounds, and \<open>scale_\<close> then hands
  \<open>transform\<close> an array without rows.
\<close>

lemma create_data_scaler_no_rows:
  "create_data_scaler ops lower upper [] = Inl ValueError"
proof (cases "MinMaxScaler_fit ops [lower, upper]")
  case (Inl e)
  with MinMaxScaler_fit_error[OF Inl] show ?thesis
    by (simp add: create_data_scaler_def row_stack_def)
next
  case (Inr sc)
  then show ?thesis
    by (simp add: create_data_scaler_def row_stack_def sim_scale_def MinMaxScaler_transform_def)
qed




text \<open>
  A range below ten times the machine epsilon is replaced by one, not only a range of
  zero: with the declared bounds 0 and \<open>2 ^ -60\<close> and the observation 0, \<open>scale_\<close> is
  one and the declared maximum is mapped to itself.
\<close>

lemma data_scaler_tiny_range:
  "create_data_scaler exact_ops [Some 0] [Some (1 / 2 ^ 60)] [[Some 0]] =
     Inr (\<lparr>sk_data_min = [Some 0], sk_data_max = [Some (1 / 2 ^ 60)],
           sk_data_range = [Some (1 / 2 ^ 60)], sk_scale = [Some 1], sk_min = [Some 0]\<rparr>,
          [[Some 0]]) \<and>
   sim_scale exact_ops
       \<lparr>sk_data_min = [Some 0], sk_data_max = [Some (1 / 2 ^ 60)],
        sk_data_range = [Some (1 / 2 ^ 60)], sk_scale = [Some 1], sk_min = [Some 0]\<rparr>
       [[Some 0], [Some (1 / 2 ^ 60)]]
     = Inr [[Some 0], [Some (1 / 2 ^ 60)]]"
  by (simp add: create_data_scaler_def row_stack_def MinMaxScaler_fit_def columns_def
      nanmin_def nanmax_def exact_ops_def exact_op_def exact_div_def handle_zeros_in_scale_def
      assert_all_finite_def sim_scale_def MinMaxScaler_transform_def transform_row_def Let_def)

section \<open>Coordinates\<close>

text \<open>
  Claim C6. For a list of coordinate arrays, \<open>create_coordinates\<close> raises the assertion
  error when the number of arrays differs from the number of declared dimensions. When the
  numbers agree it returns a dictionary whose keys are the dimension names; every dimension
  name maps to the array at its (last) position, and for distinct dimension names the
  dictionary is the dimensions paired with the arrays, in order.
\<close>

theorem create_coordinates_spec:
  "(length dims \<noteq> length cs \<longrightarrow> create_coordinates dims (Seq cs) = Inl AssertionError) \<and>
   (length dims = length cs \<longrightarrow>
      (\<exists>coords. create_coordinates dims (Seq cs) = Inr coords \<and>
         fst ` set coords = set dims \<and> distinct (map fst coords) \<and>
         (\<forall>i < length dims. dims ! i \<notin> set (drop (Suc i) dims) \<longrightarrow>
            map_of coords (dims ! i) = Some (cs ! i)) \<and>
         (distinct dims \<longrightarrow> coords = zip dims cs)))"
proof (intro conjI impI)
  assume "length dims \<noteq> length cs"
  then show "create_coordinates dims (Seq cs) = Inl AssertionError"
    by (simp add: create_coordinates_def)
next
  assume len: "length dims = length cs"
  let ?coords = "dict_of (zip dims cs)"
  have 1: "create_coordinates dims (Seq cs) = Inr ?coords"
    using len by (simp add: create_coordinates_def)
  have "fst ` set (zip dims cs) = set dims"
    using len by (metis map_fst_zip set_map)
  then have 2: "fst ` set ?coords = set dims"
    by (simp add: dict_of_def dict_store_keys)
  have 3: "distinct (map fst ?coords)"
    by (simp add: dict_of_def dict_store_distinct)
  have 4: "\<forall>i < length dims. dims ! i \<notin> set (drop (Suc i) dims) \<longrightarrow>
            map_of ?coords (dims ! i) = Some (cs ! i)"
    using len by (simp add: dict_of_def dict_store_last)
  have 5: "distinct dims \<longrightarrow> ?coords = zip dims cs"
    using len by (simp add: dict_of_distinct_keys)
  from 1 2 3 4 5
  show "\<exists>coords. create_coordinates dims (Seq cs) = Inr coords \<and>
         fst ` set coords = set dims \<and> distinct (map fst coords) \<and>
         (\<forall>i < length dims. dims ! i \<notin> set (drop (Suc i) dims) \<longrightarrow>
            map_of coords (dims ! i) = Some (cs ! i)) \<and>
         (distinct dims \<longrightarrow> coords = zip dims cs)"
    by blast
qed

text \<open>
  Two declared dimensions: with one coordinate array the call fails, with two it returns
  the dictionary of both.
\<close>

theorem create_coordinates_spec_witness:
  "create_coordinates [''time'', ''id''] (Seq [[0, 1, 2 :: int]]) = Inl AssertionError \<and>
   create_coordinates [''time'', ''id''] (Seq [[0, 1, 2 :: int], [0]])
     = Inr [(''time'', [0, 1, 2]), (''id'', [0])]"
  using create_coordinates_spec[of "[''time'', ''id'']" "[[0, 1, 2 :: int]]"]
        create_coordinates_spec[of "[''time'', ''id'']" "[[0, 1, 2 :: int], [0]]"]
  by auto

text \<open>An argument that is not a list or tuple counts as one coordinate array.\<close>

lemma create_coordinates_Single:
  "create_coordinates dims (Single c) = create_coordinates dims (Seq [c])"
  by (simp add: create_coordinates_def)

section \<open>The dataset assembled from a raw array\<close>

lemma data_arrays_all:
  assumes "length ys = length names" "length names = length das"
      and "\<forall>j < length names. DataArray (ys ! j) c (names ! j) = Inr (das ! j)"
  shows "data_arrays DataArray c (zip ys names) = Inr das"
  using assms
proof (induction ys names das rule: list_induct3)
  case Nil
  then show ?case by simp
next
  case (Cons y ys name names da das)
  from Cons.prems have hd: "DataArray y c name = Inr da" by force
  from Cons.prems have "\<forall>j < length names. DataArray (ys ! j) c (names ! j) = Inr (das ! j)"
    by force
  then have "data_arrays DataArray c (zip ys names) = Inr das" by (rule Cons.IH)
  with hd show ?case by simp
qed

lemma data_arrays_first_error:
  assumes "length ys = length names" "j < length names"
      and "DataArray (ys ! j) c (names ! j) = Inl e"
      and "\<forall>i < j. \<exists>da. DataArray (ys ! i) c (names ! i) = Inr da"
  shows "data_arrays DataArray c (zip ys names) = Inl e"
  using assms
proof (induction ys names arbitrary: j rule: list_induct2)
  case Nil
  then show ?case by simp
next
  case (Cons y ys name names)
  show ?case
  proof (cases j)
    case 0
    with Cons.prems show ?thesis by simp
  next
    case (Suc k)
    with Cons.prems obtain da where hd: "DataArray y c name = Inr da" by force
    have "data_arrays DataArray c (zip ys names) = Inl e"
    proof (rule Cons.IH[of k])
      show "k < length names" using Cons.prems Suc by simp
      show "DataArray (ys ! k) c (names ! k) = Inl e" using Cons.prems Suc by simp
      show "\<forall>i < k. \<exists>da. DataArray (ys ! i) c (names ! i) = Inr da"
        using Cons.prems(3) Suc by force
    qed
    with hd show ?thesis by simp
  qed
qed

lemma Y_transposed_nth:
  "j < last (nd_shape Y) \<Longrightarrow> Y_transposed Y ! j = variable_slice Y j"
  by (simp add: Y_transposed_def)

lemma length_Y_transposed: "length (Y_transposed Y) = last (nd_shape Y)"
  by (simp add: Y_transposed_def)

text \<open>
  Claim C7, as the code has it. For an array with at least one axis: when the length of
  the trailing axis differs from the number of names, the assembler raises the assertion
  error. When they are equal, it constructs one labelled array per name, in order, from
  the slice of the array at that index of the trailing axis, the supplied coordinates
  and the name: when every construction succeeds the result is the merge of these arrays,
  and when one fails the assembler raises the error of the first that does.
\<close>

theorem create_dataset_from_numpy_spec:
  assumes "nd_shape Y \<noteq> []"
  shows "(last (nd_shape Y) \<noteq> length Y_names \<longrightarrow>
            create_dataset_from_numpy DataArray merge Y Y_names coordinates = Inl AssertionError) \<and>
         (last (nd_shape Y) = length Y_names \<longrightarrow>
            (\<forall>das. length das = length Y_names \<and>
                (\<forall>j < length Y_names.
                    DataArray (variable_slice Y j) coordinates (Y_names ! j) = Inr (das ! j)) \<longrightarrow>
                create_dataset_from_numpy DataArray merge Y Y_names coordinates = merge das) \<and>
            (\<forall>j e. j < length Y_names \<and>
                DataArray (variable_slice Y j) coordinates (Y_names ! j) = Inl e \<and>
                (\<forall>i < j. \<exists>da. DataArray (variable_slice Y i) coordinates (Y_names ! i) = Inr da) \<longrightarrow>
                create_dataset_from_numpy DataArray merge Y Y_names coordinates = Inl e))"
proof (intro conjI impI allI)
  assume "last (nd_shape Y) \<noteq> length Y_names"
  then show "create_dataset_from_numpy DataArray merge Y Y_names coordinates = Inl AssertionError"
    using assms by (simp add: create_dataset_from_numpy_def py_index_last)
next
  fix das
  assume n: "last (nd_shape Y) = length Y_names"
     and d: "length das = length Y_names \<and>
             (\<forall>j < length Y_names.
                DataArray (variable_slice Y j) coordinates (Y_names ! j) = Inr (das ! j))"
  have "data_arrays DataArray coordinates (zip (Y_transposed Y) Y_names) = Inr das"
    using n d by (intro data_arrays_all) (simp_all add: length_Y_transposed Y_transposed_nth)
  then show "create_dataset_from_numpy DataArray merge Y Y_names coordinates = merge das"
    using assms n by (simp add: create_dataset_from_numpy_def py_index_last)
next
  fix j e
  assume n: "last (nd_shape Y) = length Y_names"
     and f: "j < length Y_names \<and>
             DataArray (variable_slice Y j) coordinates (Y_names ! j) = Inl e \<and>
             (\<forall>i < j. \<exists>da. DataArray (variable_slice Y i) coordinates (Y_names ! i) = Inr da)"
  have "data_arrays DataArray coordinates (zip (Y_transposed Y) Y_names) = Inl e"
  proof (rule data_arrays_first_error[of _ _ j])
    show "length (Y_transposed Y) = length Y_names" using n by (simp add: length_Y_transposed)
    show "j < length Y_names" using f by simp
    show "DataArray (Y_transposed Y ! j) coordinates (Y_names ! j) = Inl e"
      using f n by (simp add: Y_transposed_nth)
    show "\<forall>i < j. \<exists>da. DataArray (Y_transposed Y ! i) coordinates (Y_names ! i) = Inr da"
      using f n by (simp add: Y_transposed_nth)
  qed
  then show "create_dataset_from_numpy DataArray merge Y Y_names coordinates = Inl e"
    using assms n by (simp add: create_dataset_from_numpy_def py_index_last)
qed

text \<open>The three variables of the example output.\<close>

lemma example_Y_slices:
  "variable_slice example_Y 0 = \<lparr>nd_shape = [2], nd_data = [1, 4]\<rparr>"
  "variable_slice example_Y (Suc 0) = \<lparr>nd_shape = [2], nd_data = [2, 5]\<rparr>"
  "variable_slice example_Y (Suc (Suc 0)) = \<lparr>nd_shape = [2], nd_data = [3, 6]\<rparr>"
  by (simp_all add: variable_slice_def example_Y_def upt_rec)

text \<open>
  The theorem at the example output with xarray's constructor and merge: two names for
  the three variables fail the assertion, three names give the dataset of three variables
  over the two time labels.
\<close>

theorem create_dataset_from_numpy_spec_witness:
  "nd_shape example_Y \<noteq> [] \<and>
   create_dataset_from_numpy xr_DataArray xr_merge example_Y [''a'', ''b'']
       [(''time'', [0, 1 :: int])] = Inl AssertionError \<and>
   create_dataset_from_numpy xr_DataArray xr_merge example_Y [''a'', ''b'', ''c'']
       [(''time'', [0, 1 :: int])] =
     Inr [\<lparr>da_name = ''a'', da_coords = [(''time'', [0, 1])],
            da_values = \<lparr>nd_shape = [2], nd_data = [1, 4]\<rparr>\<rparr>,
          \<lparr>da_name = ''b'', da_coords = [(''time'', [0, 1])],
            da_values = \<lparr>nd_shape = [2], nd_data = [2, 5]\<rparr>\<rparr>,
          \<lparr>da_name = ''c'', da_coords = [(''time'', [0, 1])],
            da_values = \<lparr>nd_shape = [2], nd_data = [3, 6]\<rparr>\<rparr>]"
proof -
  let ?c = "[(''time'', [0, 1 :: int])]"
  let ?das = "[\<lparr>da_name = ''a'', da_coords = ?c,
                 da_values = \<lparr>nd_shape = [2], nd_data = [1, 4 :: real]\<rparr>\<rparr>,
               \<lparr>da_name = ''b'', da_coords = ?c,
                 da_values = \<lparr>nd_shape = [2], nd_data = [2, 5]\<rparr>\<rparr>,
               \<lparr>da_name = ''c'', da_coords = ?c,
                 da_values = \<lparr>nd_shape = [2], nd_data = [3, 6]\<rparr>\<rparr>]"
  have h: "nd_shape example_Y \<noteq> []" by (simp add: example_Y_def)
  have l: "last (nd_shape example_Y) = 3" by (simp add: example_Y_def)
  have 1: "create_dataset_from_numpy xr_DataArray xr_merge example_Y [''a'', ''b''] ?c
             = Inl AssertionError"
    using create_dataset_from_numpy_spec[OF h, where Y_names = "[''a'', ''b'']"
        and DataArray = xr_DataArray and merge = xr_merge and coordinates = ?c] l
    by simp
  have s: "\<forall>j < length [''a'', ''b'', ''c''].
             xr_DataArray (variable_slice example_Y j) ?c ([''a'', ''b'', ''c''] ! j) = Inr (?das ! j)"
  proof (intro allI impI)
    fix j :: nat
    assume "j < length [''a'', ''b'', ''c'']"
    then consider "j = 0" | "j = Suc 0" | "j = Suc (Suc 0)" by fastforce
    then show "xr_DataArray (variable_slice example_Y j) ?c ([''a'', ''b'', ''c''] ! j) = Inr (?das ! j)"
    proof cases
      case 1
      then show ?thesis by (simp add: example_Y_slices(1) xr_DataArray_def)
    next
      case 2
      then show ?thesis by (simp add: example_Y_slices(2) xr_DataArray_def)
    next
      case 3
      then show ?thesis by (simp add: example_Y_slices(3) xr_DataArray_def)
    qed
  qed
  have "create_dataset_from_numpy xr_DataArray xr_merge example_Y [''a'', ''b'', ''c''] ?c
          = xr_merge ?das"
    using create_dataset_from_numpy_spec[OF h, where Y_names = "[''a'', ''b'', ''c'']"
        and DataArray = xr_DataArray and merge = xr_merge and coordinates = ?c] l s
    by simp
  moreover have "xr_merge ?das = Inr ?das"
    by (simp add: xr_merge_def)
  ultimately show ?thesis using h 1 by simp
qed

text \<open>
  The claim as worded fails there: with three names for the three variables the
  assertion holds, and still the assembler fails when the supplied coordinates do not fit
  the remaining axes, here five time labels for two time points.
\<close>

theorem create_dataset_from_numpy_counterexample:
  "last (nd_shape example_Y) = length [''a'', ''b'', ''c''] \<and>
   create_dataset_from_numpy xr_DataArray xr_merge example_Y [''a'', ''b'', ''c'']
       [(''time'', [0, 1, 2, 3, 4 :: int])] = Inl ValueError"
  by (simp add: create_dataset_from_numpy_def py_index_def example_Y_def Y_transposed_def
      variable_slice_def xr_DataArray_def upt_rec)

section \<open>Jump times of the step-size controller\<close>

lemma mask_select_zip:
  assumes "length cs = length ts"
  shows "mask_select ts (map P cs) = Inr (map fst (filter (\<lambda>(t, c). P c) (zip ts cs)))"
proof -
  have "map fst (filter snd (zip ts (map P cs))) = map fst (filter (\<lambda>(t, c). P c) (zip ts cs))"
    using assms[symmetric] by (induction ts cs rule: list_induct2) auto
  then show ?thesis using assms by (simp add: mask_select_def)
qed

lemma mask_select_filter: "mask_select ts (map P ts) = Inr (filter P ts)"
  unfolding mask_select_def by (induction ts) auto

lemma odesolve_forcing_present:
  assumes "solver_x self \<noteq> []"
  shows "odesolve_forcing self (ts # ys # rest) =
           (case mask_select ts (map (\<lambda>c. c < last (solver_x self)) (x_in_coordinates self)) of
              Inl e \<Rightarrow> Inl e
            | Inr jumps \<Rightarrow> Inr (Some (ts, ys), Some jumps))"
  using assms
  by (simp add: odesolve_forcing_def py_index_first py_index_second py_index_last)

lemma jumps_of_odesolve:
  assumes "solver_x self \<noteq> []" "odesolve_forcing self x_in = Inr (ip, jumps)"
  shows "jumps_of (odesolve self y0 args x_in) = Inr jumps"
  using assms by (simp add: jumps_of_def odesolve_def py_index_first py_index_last)

text \<open>
  Claim C8, as the code has it. On a non-empty time grid: without forcing no jump times
  are passed; with forcing (breakpoints \<open>ts\<close>, values \<open>ys\<close>) the jump times are the
  breakpoints at the positions where the forcing's time coordinate is strictly below the
  last time coordinate. When that coordinate is the breakpoints themselves, these are the
  breakpoints strictly below the last time coordinate; the first time coordinate plays no
  part.
\<close>

theorem odesolve_jump_ts:
  assumes "solver_x self \<noteq> []"
  shows "jumps_of (odesolve self y0 args []) = Inr None \<and>
         (length (x_in_coordinates self) = length ts \<longrightarrow>
            jumps_of (odesolve self y0 args (ts # ys # rest)) =
              Inr (Some (map fst (filter (\<lambda>(t, c). c < last (solver_x self))
                                         (zip ts (x_in_coordinates self)))))) \<and>
         (x_in_coordinates self = ts \<longrightarrow>
            jumps_of (odesolve self y0 args (ts # ys # rest)) =
              Inr (Some (filter (\<lambda>t. t < last (solver_x self)) ts)))"
proof (intro conjI impI)
  have "odesolve_forcing self [] = Inr (None, None)"
    by (simp add: odesolve_forcing_def)
  from jumps_of_odesolve[OF assms this]
  show "jumps_of (odesolve self y0 args []) = Inr None" .
next
  assume "length (x_in_coordinates self) = length ts"
  then have "odesolve_forcing self (ts # ys # rest) =
      Inr (Some (ts, ys), Some (map fst (filter (\<lambda>(t, c). c < last (solver_x self))
                                              (zip ts (x_in_coordinates self)))))"
    by (simp add: odesolve_forcing_present[OF assms] mask_select_zip)
  from jumps_of_odesolve[OF assms this]
  show "jumps_of (odesolve self y0 args (ts # ys # rest)) =
          Inr (Some (map fst (filter (\<lambda>(t, c). c < last (solver_x self))
                                     (zip ts (x_in_coordinates self)))))" .
next
  assume "x_in_coordinates self = ts"
  then have "odesolve_forcing self (ts # ys # rest) =
      Inr (Some (ts, ys), Some (filter (\<lambda>t. t < last (solver_x self)) ts))"
    by (simp add: odesolve_forcing_present[OF assms] mask_select_filter)
  from jumps_of_odesolve[OF assms this]
  show "jumps_of (odesolve self y0 args (ts # ys # rest)) =
          Inr (Some (filter (\<lambda>t. t < last (solver_x self)) ts))" .
qed

text \<open>The theorem at the example solver, without forcing and with it.\<close>

theorem odesolve_jump_ts_witness:
  "solver_x example_solver \<noteq> [] \<and>
   jumps_of (odesolve example_solver [1 :: real] [] []) = Inr None \<and>
   jumps_of (odesolve example_solver [1 :: real] [] [[- 5, 5, 10], [0, 1, 0]])
     = Inr (Some [- 5, 5])"
proof -
  have h: "solver_x example_solver \<noteq> []" by (simp add: example_solver_def)
  have c: "x_in_coordinates example_solver = [- 5, 5, 10]" by (simp add: example_solver_def)
  have l: "last (solver_x example_solver) = 10" by (simp add: example_solver_def)
  show ?thesis
    using h c l odesolve_jump_ts[OF h, of "[1]" "[]" "[- 5, 5, 10]" "[0, 1, 0]" "[]"]
    by simp
qed

text \<open>
  The claim as worded fails there: the breakpoint \<open>10\<close> at the last time coordinate is
  not a jump time, and the breakpoint \<open>-5\<close> before the first time coordinate is one.
\<close>

theorem odesolve_jump_ts_counterexample:
  "jumps_of (odesolve example_solver [1 :: real] [] [[- 5, 5, 10], [0, 1, 0]])
     = Inr (Some [- 5, 5]) \<and>
   spec_jump_ts (solver_x example_solver) [- 5, 5, 10] = [5, 10] \<and>
   (10 :: real) \<notin> set [- 5, 5] \<and>
   10 \<in> set (spec_jump_ts (solver_x example_solver) [- 5, 5, 10]) \<and>
   (- 5 :: real) \<in> set [- 5, 5] \<and>
   - 5 \<notin> set (spec_jump_ts (solver_x example_solver) [- 5, 5, 10])"
  by (simp add: jumps_of_def odesolve_def odesolve_forcing_def py_index_def mask_select_def
      example_solver_def spec_jump_ts_def)

section \<open>The seed pool under sequential draws\<close>

lemma pool_inv_length:
  assumes "pool_inv gen n k s"
  shows "int (length (random_integers s)) = int (rng_drawn s) - int k"
proof -
  from assms have "k \<le> rng_drawn s" "random_integers s = map gen [k ..< rng_drawn s]"
    unfolding pool_inv_def by blast+
  then show ?thesis by (simp add: of_nat_diff)
qed

lemma init_seed_pool_inv:
  assumes "0 < cores"
  shows "\<exists>s0. init_seed_pool gen cores = Inr s0 \<and> pool_inv gen cores 0 s0 \<and>
           random_integers s0 = map gen [0 ..< nat (2 * cores)] \<and>
           rng_drawn s0 = nat (2 * cores)"
proof -
  have e: "2 * cores = cores * 2" by simp
  show ?thesis
    using assms
    unfolding init_seed_pool_def create_random_integers_def pool_inv_def e
    by simp
qed

lemma refill_consumed_seeds_inv:
  assumes "pool_inv gen n k s" "0 < n"
  shows "\<exists>r. refill_consumed_seeds gen s = Inr r \<and> pool_inv gen n k r \<and>
           n < int (rng_drawn r) - int k \<and>
           (if int (length (random_integers s)) = n
            then random_integers r =
                   random_integers s @ map gen [rng_drawn s ..< rng_drawn s + nat n] \<and>
                 rng_drawn r = rng_drawn s + nat n \<and>
                 int (length (random_integers r)) = 2 * n
            else r = s)"
proof -
  from assms(1) have c: "n_cores s = n" "seed_buffer_size s = n * 2"
    and le: "k \<le> rng_drawn s"
    and p: "random_integers s = map gen [k ..< rng_drawn s]"
    and b: "n \<le> int (rng_drawn s) - int k" "int (rng_drawn s) - int k \<le> n * 2"
    unfolding pool_inv_def by blast+
  note len = pool_inv_length[OF assms(1)]
  show ?thesis
  proof (cases "int (length (random_integers s)) = n")
    case True
    define new_seeds where "new_seeds = map gen [rng_drawn s ..< rng_drawn s + nat n]"
    let ?r = "s\<lparr>rng_drawn := rng_drawn s + nat n,
                 random_integers := random_integers s @ new_seeds\<rparr>"
    have 1: "refill_consumed_seeds gen s = Inr ?r"
      using True c assms(2)
      by (simp add: refill_consumed_seeds_def create_random_integers_def new_seeds_def)
    have "[k ..< rng_drawn s + nat n] = [k ..< rng_drawn s] @ [rng_drawn s ..< rng_drawn s + nat n]"
      using le by (rule upt_add_eq_append)
    then have 2: "random_integers s @ new_seeds = map gen [k ..< rng_drawn s + nat n]"
      by (simp add: p new_seeds_def)
    have 3: "int (length (random_integers s @ new_seeds)) = 2 * n"
      using True assms(2) by (simp add: new_seeds_def)
    have 4: "int (rng_drawn s + nat n) - int k = 2 * n"
      using True len assms(2) by simp
    have "pool_inv gen n k ?r"
      unfolding pool_inv_def using c le 2 4 assms(2) by simp
    moreover have "n < int (rng_drawn ?r) - int k"
      using 4 assms(2) by simp
    ultimately show ?thesis
      using 1 3 True by (intro exI[of _ ?r]) (simp add: new_seeds_def)
  next
    case False
    then have 1: "refill_consumed_seeds gen s = Inr s"
      using c by (simp add: refill_consumed_seeds_def)
    from False len b have "n < int (rng_drawn s) - int k" by simp
    with 1 assms(1) False show ?thesis
      by (intro exI[of _ s]) simp
  qed
qed

lemma draw_seed_inv:
  assumes "pool_inv gen n k s" "0 < n"
  shows "\<exists>r s'. refill_consumed_seeds gen s = Inr r \<and>
           draw_seed gen s = Inr (gen k, s') \<and>
           random_integers r = gen k # random_integers s' \<and> rng_drawn s' = rng_drawn r \<and>
           pool_inv gen n (Suc k) s' \<and>
           int (length (random_integers s')) \<le> 2 * n - 1"
proof -
  from refill_consumed_seeds_inv[OF assms] obtain r where
    r: "refill_consumed_seeds gen s = Inr r" "pool_inv gen n k r"
       "n < int (rng_drawn r) - int k"
    by blast
  from r(2) have c: "n_cores r = n" "seed_buffer_size r = n * 2"
    and p: "random_integers r = map gen [k ..< rng_drawn r]"
    and u: "int (rng_drawn r) - int k \<le> n * 2"
    unfolding pool_inv_def by blast+
  from r(3) assms(2) have lt: "k < rng_drawn r" by simp
  define rest where "rest = map gen [Suc k ..< rng_drawn r]"
  from lt have q: "random_integers r = gen k # rest"
    by (simp add: p rest_def upt_conv_Cons)
  let ?s' = "r\<lparr>random_integers := rest\<rparr>"
  have 1: "draw_seed gen s = Inr (gen k, ?s')"
    by (simp add: draw_seed_def r(1) q)
  have 2: "pool_inv gen n (Suc k) ?s'"
    unfolding pool_inv_def using c u r(3) lt by (simp add: rest_def)
  from pool_inv_length[OF 2] u have 3: "int (length (random_integers ?s')) \<le> 2 * n - 1"
    by simp
  from r(1) 1 2 3 q show ?thesis
    by (intro exI[of _ r] exI[of _ ?s']) simp
qed

lemma draw_seeds_inv:
  assumes "pool_inv gen n k s" "0 < n"
  shows "\<exists>s'. draw_seeds gen j s = Inr (map gen [k ..< k + j], s') \<and> pool_inv gen n (k + j) s'"
  using assms(1)
proof (induction j arbitrary: k s)
  case 0
  then show ?case by simp
next
  case (Suc j)
  from draw_seed_inv[OF Suc.prems assms(2)] obtain s1 where
    d: "draw_seed gen s = Inr (gen k, s1)" "pool_inv gen n (Suc k) s1" by blast
  from Suc.IH[OF d(2)] obtain s2 where
    r: "draw_seeds gen j s1 = Inr (map gen [Suc k ..< Suc k + j], s2)"
       "pool_inv gen n (Suc k + j) s2" by blast
  have "[k ..< k + Suc j] = k # [Suc k ..< Suc k + j]"
    using upt_conv_Cons[of k "k + Suc j"] by simp
  then have "map gen [k ..< k + Suc j] = gen k # map gen [Suc k ..< Suc k + j]"
    by simp
  with d r show ?case by simp
qed

text \<open>
  Claim C10, for a positive number of cores. The pool starts as the first
  \<open>2 * n_cores\<close> integers of the generator. After any number \<open>k\<close> of sequential draws,
  which have returned the first \<open>k\<close> integers of the generator in order, the pool holds
  the integers from the \<open>k\<close>-th up to the last one the generator has given, and the next
  \<open>draw_seed\<close> succeeds: \<open>refill_consumed_seeds\<close> appends the next \<open>n_cores\<close> integers
  of the generator, back to \<open>2 * n_cores\<close> seeds, exactly when the pool holds \<open>n_cores\<close>
  seeds, and changes nothing otherwise; the draw removes the first element of the refilled
  pool, the \<open>k\<close>-th integer of the generator, and returns it; and the pool then holds
  between \<open>n_cores\<close> and \<open>2 * n_cores - 1\<close> seeds.
\<close>

theorem seed_pool_sequential_draws:
  assumes "0 < cores"
  shows "\<exists>s0. init_seed_pool gen cores = Inr s0 \<and>
           random_integers s0 = map gen [0 ..< nat (2 * cores)] \<and>
           rng_drawn s0 = nat (2 * cores) \<and>
           (\<forall>k. \<exists>s r s'.
              draw_seeds gen k s0 = Inr (map gen [0 ..< k], s) \<and>
              random_integers s = map gen [k ..< rng_drawn s] \<and>
              refill_consumed_seeds gen s = Inr r \<and>
              (if int (length (random_integers s)) = cores
               then random_integers r =
                      random_integers s @ map gen [rng_drawn s ..< rng_drawn s + nat cores] \<and>
                    rng_drawn r = rng_drawn s + nat cores \<and>
                    int (length (random_integers r)) = 2 * cores
               else r = s) \<and>
              draw_seed gen s = Inr (gen k, s') \<and>
              random_integers r = gen k # random_integers s' \<and>
              rng_drawn s' = rng_drawn r \<and>
              cores \<le> int (length (random_integers s')) \<and>
              int (length (random_integers s')) \<le> 2 * cores - 1)"
proof -
  from init_seed_pool_inv[OF assms, of gen] obtain s0 where
    s0: "init_seed_pool gen cores = Inr s0" "pool_inv gen cores 0 s0"
        "random_integers s0 = map gen [0 ..< nat (2 * cores)]" "rng_drawn s0 = nat (2 * cores)"
    by blast
  have "\<exists>s r s'.
              draw_seeds gen k s0 = Inr (map gen [0 ..< k], s) \<and>
              random_integers s = map gen [k ..< rng_drawn s] \<and>
              refill_consumed_seeds gen s = Inr r \<and>
              (if int (length (random_integers s)) = cores
               then random_integers r =
                      random_integers s @ map gen [rng_drawn s ..< rng_drawn s + nat cores] \<and>
                    rng_drawn r = rng_drawn s + nat cores \<and>
                    int (length (random_integers r)) = 2 * cores
               else r = s) \<and>
              draw_seed gen s = Inr (gen k, s') \<and>
              random_integers r = gen k # random_integers s' \<and>
              rng_drawn s' = rng_drawn r \<and>
              cores \<le> int (length (random_integers s')) \<and>
              int (length (random_integers s')) \<le> 2 * cores - 1" for k
  proof -
    from draw_seeds_inv[OF s0(2) assms, of k] obtain s where
      s: "draw_seeds gen k s0 = Inr (map gen [0 ..< k], s)" "pool_inv gen cores k s" by auto
    from s(2) have p: "random_integers s = map gen [k ..< rng_drawn s]"
      by (simp add: pool_inv_def)
    from refill_consumed_seeds_inv[OF s(2) assms] obtain r where
      r: "refill_consumed_seeds gen s = Inr r"
         "if int (length (random_integers s)) = cores
          then random_integers r =
                 random_integers s @ map gen [rng_drawn s ..< rng_drawn s + nat cores] \<and>
               rng_drawn r = rng_drawn s + nat cores \<and>
               int (length (random_integers r)) = 2 * cores
          else r = s" by blast
    from draw_seed_inv[OF s(2) assms] r(1) obtain s' where
      d: "draw_seed gen s = Inr (gen k, s')" "random_integers r = gen k # random_integers s'"
         "rng_drawn s' = rng_drawn r"
         "pool_inv gen cores (Suc k) s'" "int (length (random_integers s')) \<le> 2 * cores - 1"
      by auto
    from d(4) have "cores \<le> int (rng_drawn s') - int (Suc k)"
      unfolding pool_inv_def by blast
    with pool_inv_length[OF d(4)] have "cores \<le> int (length (random_integers s'))"
      by simp
    with s(1) p r d(1,2,3,5) show ?thesis by blast
  qed
  with s0 show ?thesis by blast
qed

text \<open>
  The theorem at two cores, with the generator that counts from zero: the pool starts as
  \<open>0, 1, 2, 3\<close>, and three draws return \<open>0, 1, 2\<close>, the third after a refill with \<open>4, 5\<close>.
\<close>

theorem seed_pool_sequential_draws_witness:
  "0 < (2 :: int) \<and>
   init_seed_pool (\<lambda>i. int i) 2 =
     Inr \<lparr>n_cores = 2, seed_buffer_size = 4, random_integers = [0, 1, 2, 3], rng_drawn = 4\<rparr> \<and>
   (\<exists>s. draw_seeds (\<lambda>i. int i) 3
           \<lparr>n_cores = 2, seed_buffer_size = 4, random_integers = [0, 1, 2, 3], rng_drawn = 4\<rparr>
         = Inr ([0, 1, 2], s) \<and>
        random_integers s = map (\<lambda>i. int i) [3 ..< rng_drawn s])"
proof -
  have h: "0 < (2 :: int)" by simp
  have i: "init_seed_pool (\<lambda>i. int i) 2 =
     Inr \<lparr>n_cores = 2, seed_buffer_size = 4, random_integers = [0, 1, 2, 3], rng_drawn = 4\<rparr>"
    by (simp add: init_seed_pool_def create_random_integers_def upt_rec)
  from seed_pool_sequential_draws[OF h, of "\<lambda>i. int i"] obtain s0 where
    a: "init_seed_pool (\<lambda>i. int i) 2 = Inr s0" and
    b: "\<forall>k. \<exists>s. draw_seeds (\<lambda>i. int i) k s0 = Inr (map (\<lambda>i. int i) [0 ..< k], s) \<and>
               random_integers s = map (\<lambda>i. int i) [k ..< rng_drawn s]"
    by blast
  from a i have s0: "s0 =
     \<lparr>n_cores = 2, seed_buffer_size = 4, random_integers = [0, 1, 2, 3], rng_drawn = 4\<rparr>"
    by simp
  from b obtain s where
    "draw_seeds (\<lambda>i. int i) 3 s0 = Inr (map (\<lambda>i. int i) [0 ..< 3], s)"
    "random_integers s = map (\<lambda>i. int i) [3 ..< rng_drawn s]"
    by blast
  moreover have "map (\<lambda>i. int i) [0 ..< 3] = [0, 1, 2]" by (simp add: upt_rec)
  ultimately have "\<exists>s. draw_seeds (\<lambda>i. int i) 3
           \<lparr>n_cores = 2, seed_buffer_size = 4, random_integers = [0, 1, 2, 3], rng_drawn = 4\<rparr>
         = Inr ([0, 1, 2], s) \<and>
        random_integers s = map (\<lambda>i. int i) [3 ..< rng_drawn s]"
    unfolding s0 by auto
  with h i show ?thesis by blast
qed

text \<open>
  The claim as worded fails without cores: the pool starts empty, the refill adds
  nothing, and the first draw pops from an empty list.
\<close>

theorem draw_seed_no_cores_counterexample:
  "init_seed_pool (\<lambda>i. int i) 0 =
     Inr \<lparr>n_cores = 0, seed_buffer_size = 0, random_integers = [], rng_drawn = 0\<rparr> \<and>
   draw_seed (\<lambda>i. int i)
     \<lparr>n_cores = 0, seed_buffer_size = 0, random_integers = [], rng_drawn = 0\<rparr> = Inl IndexError"
  by (simp add: init_seed_pool_def create_random_integers_def draw_seed_def
      refill_consumed_seeds_def)

end
